theory Spec2Isabelle
  imports Main "HOL-Library.Word" "HOL-Library.Multiset"
begin

unbundle bit_operations_syntax

section \<open>Collaborators of the k-bucket\<close>

text \<open>
  The bucket of \<^verbatim>\<open>network/kad/router/kbucket.go\<close> stores pointers to peers of the
  package \<^verbatim>\<open>kad/types\<close> and compares identifiers of the package \<^verbatim>\<open>types\<close>. Neither
  package is part of the sources at hand, so their values are modelled from the
  specification's data model.
\<close>

text \<open>Modelled from the spec: \<^verbatim>\<open>types.UInt128\<close>, a 128-bit identifier with equality,
  a three-way comparison of the unsigned values and the XOR distance.\<close>

type_synonym UInt128 = "128 word"

definition UInt128_Equal :: "UInt128 \<Rightarrow> UInt128 \<Rightarrow> bool" where
  "UInt128_Equal a b = (a = b)"

definition Xor :: "UInt128 \<Rightarrow> UInt128 \<Rightarrow> UInt128" where
  "Xor a b = a XOR b"

definition Compare :: "UInt128 \<Rightarrow> UInt128 \<Rightarrow> int" where
  "Compare a b = (if a < b then - 1 else if a = b then 0 else 1)"

text \<open>\<^verbatim>\<open>net.IP\<close> of Go's standard library is a byte slice of length 4 or 16, and
  \<^verbatim>\<open>IP.Equal\<close> identifies an IPv4 address with its IPv4-in-IPv6 form.\<close>

type_synonym IP = "8 word list"

definition v4InV6Prefix :: IP where
  "v4InV6Prefix = [0, 0, 0, 0, 0, 0, 0, 0, 0, 0, 0xff, 0xff]"

definition IP_Equal :: "IP \<Rightarrow> IP \<Rightarrow> bool" where
  "IP_Equal ip x =
     (if length ip = length x then ip = x
      else if length ip = 4 \<and> length x = 16 then take 12 x = v4InV6Prefix \<and> ip = drop 12 x
      else if length ip = 16 \<and> length x = 4 then take 12 ip = v4InV6Prefix \<and> drop 12 ip = x
      else False)"

text \<open>Modelled from the spec: the record \<^verbatim>\<open>kadTypes.Peer\<close>: an identifier, a public
  IP address, a UDP and a TCP port, the flags "IP verified" and "alive", and a freshness
  marker that the peer updates in place.\<close>

record Peer =
  peer_id :: UInt128
  peer_ip :: IP
  udpPort :: "16 word"
  tcpPort :: "16 word"
  ipVerified :: bool
  isAlive :: bool
  freshness :: nat

text \<open>The bucket holds \<^verbatim>\<open>*kadTypes.Peer\<close>: a pointer is \<open>nil\<close> or the address of a peer
  object.\<close>

datatype Peer_ptr = nil | Ptr nat

section \<open>Memory: slices over backing arrays, peer objects\<close>

text \<open>
  A Go slice is a window (offset, length, capacity) on a backing array; two slices on
  the same array see each other's writes. The store keeps every backing array of
  \<^verbatim>\<open>[]*Peer\<close> under its allocation index and every peer object under its address.
\<close>

record slice =
  arr :: nat
  off :: nat
  len :: nat
  cap :: nat

record heap =
  arrays :: "Peer_ptr list list"
  objs :: "nat \<Rightarrow> Peer"

definition slice_elems :: "heap \<Rightarrow> slice \<Rightarrow> Peer_ptr list" where
  "slice_elems h s = take (len s) (drop (off s) (arrays h ! arr s))"

definition slice_index :: "heap \<Rightarrow> slice \<Rightarrow> nat \<Rightarrow> Peer_ptr" where
  "slice_index h s i = arrays h ! arr s ! (off s + i)"

text \<open>\<^verbatim>\<open>make([]*Peer, n)\<close>: a fresh array of \<open>n\<close> nil pointers, length and capacity \<open>n\<close>.\<close>

definition make_slice :: "nat \<Rightarrow> heap \<Rightarrow> slice \<times> heap" where
  "make_slice n h =
     (\<lparr>arr = length (arrays h), off = 0, len = n, cap = n\<rparr>,
      h\<lparr>arrays := arrays h @ [replicate n nil]\<rparr>)"

text \<open>\<^verbatim>\<open>s[lo:hi]\<close> for \<open>lo \<le> hi \<le> cap s\<close> (the callers below stay inside these bounds, or
  check them first).\<close>

definition reslice :: "slice \<Rightarrow> nat \<Rightarrow> nat \<Rightarrow> slice" where
  "reslice s lo hi = \<lparr>arr = arr s, off = off s + lo, len = hi - lo, cap = cap s - lo\<rparr>"

text \<open>\<^verbatim>\<open>append(s, xs...)\<close>: the values \<open>xs\<close> are read first; when they fit into the
  capacity they are written into the backing array behind the slice, otherwise a
  larger array is allocated and the old elements are copied. The new capacity is the
  runtime's choice; the model doubles, and no property below depends on it.\<close>

definition go_append :: "slice \<Rightarrow> Peer_ptr list \<Rightarrow> heap \<Rightarrow> slice \<times> heap" where
  "go_append s xs h =
     (if len s + length xs \<le> cap s then
        (let a = arrays h ! arr s;
             a' = take (off s + len s) a @ xs @ drop (off s + len s + length xs) a
         in (s\<lparr>len := len s + length xs\<rparr>, h\<lparr>arrays := (arrays h)[arr s := a']\<rparr>))
      else
        (let n = len s + length xs;
             c = max n (2 * cap s)
         in (\<lparr>arr = length (arrays h), off = 0, len = n, cap = c\<rparr>,
             h\<lparr>arrays := arrays h @ [slice_elems h s @ xs @ replicate (c - n) nil]\<rparr>)))"

section \<open>Errors, panics and the mutex\<close>

text \<open>An \<^verbatim>\<open>error\<close> is a message made by \<^verbatim>\<open>errors.New\<close> or the failure of the entropy
  source; a function returning \<^verbatim>\<open>error\<close> returns \<open>None\<close> for Go's nil.\<close>

datatype error = errors_New string | rand_Read_error

definition InvalidArgument :: error where
  "InvalidArgument = errors_New ''kBucket only can storage not null peers''"

definition DuplicatePeer :: error where
  "DuplicatePeer = errors_New ''kBucket already contains the passed peer''"

definition BucketFull :: error where
  "BucketFull = errors_New ''the current kBucket is full''"

definition TooManyFromSameAddress :: error where
  "TooManyFromSameAddress = errors_New ''many peers for the current IP''"

definition PeerNotFound :: error where
  "PeerNotFound = errors_New ''kBucket don't contains a peer with the passed id''"

definition PeerNotFoundByAddr :: error where
  "PeerNotFoundByAddr = errors_New ''kBucket don't contains a peer with the passed ip''"

definition PeerNotFoundToPush :: error where
  "PeerNotFoundToPush = errors_New ''kBucket don't contains the passed peer''"

definition UnsupportedAddressKind :: error where
  "UnsupportedAddressKind = errors_New ''incompatible network type''"

definition EmptyBucket :: error where
  "EmptyBucket = errors_New ''kBucket don't contains any peer''"

definition RandomSourceFailure :: error where
  "RandomSourceFailure = rand_Read_error"

text \<open>A call returns, panics (a nil pointer is dereferenced, a slice bound is out of
  range) or blocks forever on the mutex, which is not reentrant.\<close>

datatype 'a outcome = Returns 'a | Panics string | Blocks

definition nil_dereference :: string where
  "nil_dereference = ''invalid memory address or nil pointer dereference''"

definition slice_bounds :: string where
  "slice_bounds = ''slice bounds out of range''"

section \<open>The bucket\<close>

definition maxBucketSize :: nat where
  "maxBucketSize = 16"

definition maxPeersPerIP :: nat where
  "maxPeersPerIP = 3"

text \<open>\<open>peersAccess\<close> is the \<^verbatim>\<open>sync.Mutex\<close>: \<open>True\<close> while it is held.\<close>

record kBucket =
  peers :: slice
  peersAccess :: bool

definition Lock :: "kBucket \<Rightarrow> kBucket option" where
  "Lock b = (if peersAccess b then None else Some (b\<lparr>peersAccess := True\<rparr>))"

text \<open>Every \<^verbatim>\<open>Unlock\<close> of the source follows a \<^verbatim>\<open>Lock\<close> of the same call, so the
  runtime's fatal error for unlocking a free mutex has no branch here.\<close>

definition Unlock :: "kBucket \<Rightarrow> kBucket" where
  "Unlock b = b\<lparr>peersAccess := False\<rparr>"

definition newKBucket :: "heap \<Rightarrow> kBucket \<times> heap" where
  "newKBucket h =
     (case make_slice maxBucketSize h of
        (s, h') \<Rightarrow> (\<lparr>peers = s, peersAccess = False\<rparr>, h'))"

definition CountPeers :: "kBucket \<Rightarrow> int" where
  "CountPeers b = int (len (peers b))"

definition CountRemainingPeers :: "kBucket \<Rightarrow> int" where
  "CountRemainingPeers b = int maxBucketSize - CountPeers b"

definition IsFull :: "kBucket \<Rightarrow> bool" where
  "IsFull b = (CountPeers b = int maxBucketSize)"

definition OldestPeer :: "kBucket \<Rightarrow> heap \<Rightarrow> Peer_ptr" where
  "OldestPeer b h = (if len (peers b) > 0 then slice_index h (peers b) 0 else nil)"

text \<open>\<^verbatim>\<open>GetRandomPeer\<close> reads one byte of \<^verbatim>\<open>crypto/rand\<close> before it takes the lock; the
  read is the argument \<open>rnd\<close>: its error, or the byte.\<close>

definition GetRandomPeer ::
  "error + 8 word \<Rightarrow> kBucket \<Rightarrow> heap \<Rightarrow> (Peer_ptr \<times> error option) outcome \<times> kBucket" where
  "GetRandomPeer rnd b h =
     (case rnd of
        Inl err \<Rightarrow> (Returns (nil, Some err), b)
      | Inr b0 \<Rightarrow>
          (case Lock b of
             None \<Rightarrow> (Blocks, b)
           | Some b1 \<Rightarrow>
               if len (peers b1) > 0 then
                 (Returns (slice_index h (peers b1) (unat b0 mod len (peers b1)), None), Unlock b1)
               else (Returns (nil, Some EmptyBucket), Unlock b1)))"

section \<open>Methods of a peer, called through a pointer\<close>

text \<open>Modelled from the spec: the methods of \<^verbatim>\<open>*kadTypes.Peer\<close>. Each one reads the
  peer behind its receiver, so a nil receiver (or a nil argument of \<^verbatim>\<open>Equal\<close>) is a nil
  pointer dereference: the result \<open>None\<close>. Two peers are equal iff their identifiers
  are equal.\<close>

definition deref :: "heap \<Rightarrow> Peer_ptr \<Rightarrow> Peer option" where
  "deref h p = (case p of nil \<Rightarrow> None | Ptr a \<Rightarrow> Some (objs h a))"

definition Peer_Id :: "heap \<Rightarrow> Peer_ptr \<Rightarrow> UInt128 option" where
  "Peer_Id h p = map_option peer_id (deref h p)"

definition Peer_IP :: "heap \<Rightarrow> Peer_ptr \<Rightarrow> IP option" where
  "Peer_IP h p = map_option peer_ip (deref h p)"

definition Peer_UDPPort :: "heap \<Rightarrow> Peer_ptr \<Rightarrow> 16 word option" where
  "Peer_UDPPort h p = map_option udpPort (deref h p)"

definition Peer_TCPPort :: "heap \<Rightarrow> Peer_ptr \<Rightarrow> 16 word option" where
  "Peer_TCPPort h p = map_option tcpPort (deref h p)"

definition Peer_IsIpVerified :: "heap \<Rightarrow> Peer_ptr \<Rightarrow> bool option" where
  "Peer_IsIpVerified h p = map_option ipVerified (deref h p)"

definition Peer_IsAlive :: "heap \<Rightarrow> Peer_ptr \<Rightarrow> bool option" where
  "Peer_IsAlive h p = map_option isAlive (deref h p)"

definition Peer_Equal :: "heap \<Rightarrow> Peer_ptr \<Rightarrow> Peer_ptr \<Rightarrow> bool option" where
  "Peer_Equal h p q =
     (case Peer_Id h p of
        None \<Rightarrow> None
      | Some i \<Rightarrow> (case Peer_Id h q of None \<Rightarrow> None | Some j \<Rightarrow> Some (UInt128_Equal i j)))"

text \<open>Modelled from the spec: \<^verbatim>\<open>UpdateType\<close>, the peer's own freshness update. It is
  opaque to the bucket; \<open>upd\<close> computes the new marker from the peer, and nothing else
  of the peer changes.\<close>

definition Peer_UpdateType :: "(Peer \<Rightarrow> nat) \<Rightarrow> heap \<Rightarrow> Peer_ptr \<Rightarrow> heap option" where
  "Peer_UpdateType upd h p =
     (case p of
        nil \<Rightarrow> None
      | Ptr a \<Rightarrow> Some (h\<lparr>objs := (objs h)(a := (objs h a)\<lparr>freshness := upd (objs h a)\<rparr>)\<rparr>))"

section \<open>Admission and removal\<close>

text \<open>The loop of \<^verbatim>\<open>AddPeer\<close> over the occupants: it leaves the function at the first
  occupant equal to the new peer (\<open>Inl\<close>: the function's outcome), and counts the
  occupants on the new peer's address otherwise (\<open>Inr\<close>: \<^verbatim>\<open>sameNetwork\<close>).\<close>

fun AddPeer_scan ::
  "heap \<Rightarrow> Peer_ptr \<Rightarrow> Peer_ptr list \<Rightarrow> nat \<Rightarrow> error option outcome + nat" where
  "AddPeer_scan h newPeer [] sameNetwork = Inr sameNetwork"
| "AddPeer_scan h newPeer (peer # rest) sameNetwork =
     (case Peer_Equal h peer newPeer of
        None \<Rightarrow> Inl (Panics nil_dereference)
      | Some True \<Rightarrow> Inl (Returns (Some DuplicatePeer))
      | Some False \<Rightarrow>
          (case Peer_IP h peer of
             None \<Rightarrow> Inl (Panics nil_dereference)
           | Some x \<Rightarrow>
               (case Peer_IP h newPeer of
                  None \<Rightarrow> Inl (Panics nil_dereference)
                | Some y \<Rightarrow>
                    AddPeer_scan h newPeer rest
                      (if IP_Equal x y then sameNetwork + 1 else sameNetwork))))"

text \<open>A return inside the loop unlocks first; a panic leaves the mutex held.\<close>

definition AddPeer ::
  "Peer_ptr \<Rightarrow> kBucket \<Rightarrow> heap \<Rightarrow> error option outcome \<times> kBucket \<times> heap" where
  "AddPeer newPeer b h =
     (if newPeer = nil then (Returns (Some InvalidArgument), b, h)
      else
        (case Lock b of
           None \<Rightarrow> (Blocks, b, h)
         | Some b1 \<Rightarrow>
             (case AddPeer_scan h newPeer (slice_elems h (peers b1)) 0 of
                Inl (Returns e) \<Rightarrow> (Returns e, Unlock b1, h)
              | Inl out \<Rightarrow> (out, b1, h)
              | Inr sameNetwork \<Rightarrow>
                  if len (peers b1) \<ge> maxBucketSize then
                    (Returns (Some BucketFull), Unlock b1, h)
                  else if sameNetwork \<ge> maxPeersPerIP then
                    (Returns (Some TooManyFromSameAddress), Unlock b1, h)
                  else
                    (case go_append (peers b1) [newPeer] h of
                       (s, h') \<Rightarrow> (Returns None, Unlock (b1\<lparr>peers := s\<rparr>), h')))))"

text \<open>The loops of \<^verbatim>\<open>RemovePeer\<close> and \<^verbatim>\<open>pushToEnd\<close>: the index of the first occupant
  for which \<open>eq\<close> holds; \<open>eq\<close> is \<^verbatim>\<open>peertr.Equal(peer)\<close> in the one and
  \<^verbatim>\<open>peer.Equal(currPeer)\<close> in the other.\<close>

fun index_scan :: "(Peer_ptr \<Rightarrow> bool option) \<Rightarrow> Peer_ptr list \<Rightarrow> nat \<Rightarrow> nat option outcome" where
  "index_scan eq [] index = Returns None"
| "index_scan eq (peertr # rest) index =
     (case eq peertr of
        None \<Rightarrow> Panics nil_dereference
      | Some True \<Rightarrow> Returns (Some index)
      | Some False \<Rightarrow> index_scan eq rest (index + 1))"

definition RemovePeer ::
  "Peer_ptr \<Rightarrow> kBucket \<Rightarrow> heap \<Rightarrow> error option outcome \<times> kBucket \<times> heap" where
  "RemovePeer peer b h =
     (case Lock b of
        None \<Rightarrow> (Blocks, b, h)
      | Some b1 \<Rightarrow>
          (case index_scan (\<lambda>peertr. Peer_Equal h peertr peer) (slice_elems h (peers b1)) 0 of
             Returns (Some index) \<Rightarrow>
               (case go_append (reslice (peers b1) 0 index)
                       (slice_elems h (reslice (peers b1) (index + 1) (len (peers b1)))) h of
                  (s, h') \<Rightarrow> (Returns None, Unlock (b1\<lparr>peers := s\<rparr>), h'))
           | Returns None \<Rightarrow> (Returns (Some PeerNotFound), Unlock b1, h)
           | Panics m \<Rightarrow> (Panics m, b1, h)
           | Blocks \<Rightarrow> (Blocks, b1, h)))"

section \<open>Lookup\<close>

fun GetPeer_scan :: "heap \<Rightarrow> UInt128 \<Rightarrow> Peer_ptr list \<Rightarrow> Peer_ptr option outcome" where
  "GetPeer_scan h ident [] = Returns None"
| "GetPeer_scan h ident (peer # rest) =
     (case Peer_Id h peer of
        None \<Rightarrow> Panics nil_dereference
      | Some peerId \<Rightarrow>
          if UInt128_Equal peerId ident then Returns (Some peer)
          else GetPeer_scan h ident rest)"

definition GetPeer ::
  "UInt128 \<Rightarrow> kBucket \<Rightarrow> heap \<Rightarrow> (Peer_ptr \<times> error option) outcome \<times> kBucket" where
  "GetPeer ident b h =
     (case Lock b of
        None \<Rightarrow> (Blocks, b)
      | Some b1 \<Rightarrow>
          (case GetPeer_scan h ident (slice_elems h (peers b1)) of
             Returns (Some peer) \<Rightarrow> (Returns (peer, None), Unlock b1)
           | Returns None \<Rightarrow> (Returns (nil, Some PeerNotFound), Unlock b1)
           | Panics m \<Rightarrow> (Panics m, b1)
           | Blocks \<Rightarrow> (Blocks, b1)))"

text \<open>\<^verbatim>\<open>net.Addr\<close> is an interface: a UDP address, a TCP address (each with an IP and
  an \<^verbatim>\<open>int\<close> port), or an address of another kind.\<close>

datatype Addr = UDPAddr IP int | TCPAddr IP int | OtherAddr

fun GetPeerByAddr_scan ::
  "heap \<Rightarrow> IP \<Rightarrow> 16 word \<Rightarrow> bool \<Rightarrow> Peer_ptr list \<Rightarrow> Peer_ptr option outcome" where
  "GetPeerByAddr_scan h ip port isTcp [] = Returns None"
| "GetPeerByAddr_scan h ip port isTcp (peer # rest) =
     (case deref h peer of
        None \<Rightarrow> Panics nil_dereference
      | Some x \<Rightarrow>
          if IP_Equal (peer_ip x) ip \<and>
             ((isTcp \<and> tcpPort x = port) \<or> (\<not> isTcp \<and> udpPort x = port))
          then Returns (Some peer)
          else GetPeerByAddr_scan h ip port isTcp rest)"

text \<open>The mutex is taken before the type switch, and the default case of the switch
  returns as the source does: without unlocking.\<close>

definition GetPeerByAddr ::
  "Addr \<Rightarrow> kBucket \<Rightarrow> heap \<Rightarrow> (Peer_ptr \<times> error option) outcome \<times> kBucket" where
  "GetPeerByAddr addr b h =
     (case Lock b of
        None \<Rightarrow> (Blocks, b)
      | Some b1 \<Rightarrow>
          (case (case addr of
                   UDPAddr pIP pPort \<Rightarrow> Some (pIP, word_of_int pPort, False)
                 | TCPAddr pIP pPort \<Rightarrow> Some (pIP, word_of_int pPort, True)
                 | OtherAddr \<Rightarrow> None) of
             None \<Rightarrow> (Returns (nil, Some UnsupportedAddressKind), b1)
           | Some (ip, port, isTcp) \<Rightarrow>
               (case GetPeerByAddr_scan h ip port isTcp (slice_elems h (peers b1)) of
                  Returns (Some peer) \<Rightarrow> (Returns (peer, None), Unlock b1)
                | Returns None \<Rightarrow> (Returns (nil, Some PeerNotFoundByAddr), Unlock b1)
                | Panics m \<Rightarrow> (Panics m, b1)
                | Blocks \<Rightarrow> (Blocks, b1))))"

definition ContainsPeer :: "UInt128 \<Rightarrow> kBucket \<Rightarrow> heap \<Rightarrow> bool outcome \<times> kBucket" where
  "ContainsPeer ident b h =
     (case GetPeer ident b h of
        (Returns (peer, err), b1) \<Rightarrow> (Returns (peer \<noteq> nil \<and> err = None), b1)
      | (Panics m, b1) \<Rightarrow> (Panics m, b1)
      | (Blocks, b1) \<Rightarrow> (Blocks, b1))"

text \<open>\<^verbatim>\<open>copy(dst, src)\<close> writes the first \<open>min (len dst) (len src)\<close> elements of \<open>src\<close>
  into the array behind \<open>dst\<close>.\<close>

definition go_copy :: "slice \<Rightarrow> slice \<Rightarrow> heap \<Rightarrow> heap" where
  "go_copy dst src h =
     (let n = min (len dst) (len src);
          a = arrays h ! arr dst
      in h\<lparr>arrays := (arrays h)[arr dst :=
            take (off dst) a @ take n (slice_elems h src) @ drop (off dst + n) a]\<rparr>)"

text \<open>\<^verbatim>\<open>Peers\<close> takes no lock: the bucket is as it was.\<close>

definition Peers :: "kBucket \<Rightarrow> heap \<Rightarrow> slice \<times> heap" where
  "Peers b h =
     (case make_slice (len (peers b)) h of
        (peerCpy, h1) \<Rightarrow> (peerCpy, go_copy peerCpy (peers b) h1))"

section \<open>Distance ranking\<close>

text \<open>Modelled from the spec: \<^verbatim>\<open>kadTypes.Filter\<close>, which is not part of the sources:
  a new slice of the elements that satisfy the predicate, in their order. The
  predicate can dereference a nil pointer (\<open>None\<close>), which ends the call.\<close>

fun Filter_scan :: "(Peer_ptr \<Rightarrow> bool option) \<Rightarrow> Peer_ptr list \<Rightarrow> Peer_ptr list option" where
  "Filter_scan f [] = Some []"
| "Filter_scan f (peer # rest) =
     (case f peer of
        None \<Rightarrow> None
      | Some keep \<Rightarrow>
          (case Filter_scan f rest of
             None \<Rightarrow> None
           | Some ys \<Rightarrow> Some (if keep then peer # ys else ys)))"

definition Filter ::
  "slice \<Rightarrow> (Peer_ptr \<Rightarrow> bool option) \<Rightarrow> heap \<Rightarrow> (slice \<times> heap) option" where
  "Filter s f h =
     (case Filter_scan f (slice_elems h s) of
        None \<Rightarrow> None
      | Some ys \<Rightarrow>
          Some (\<lparr>arr = length (arrays h), off = 0, len = length ys, cap = length ys\<rparr>,
                h\<lparr>arrays := arrays h @ [ys]\<rparr>))"

text \<open>The predicate of \<^verbatim>\<open>GetClosestPeers\<close>: \<^verbatim>\<open>peer.IsIpVerified() && peer.IsAlive()\<close>.\<close>

definition active :: "heap \<Rightarrow> Peer_ptr \<Rightarrow> bool option" where
  "active h peer =
     (case Peer_IsIpVerified h peer of
        None \<Rightarrow> None
      | Some v \<Rightarrow> if v then Peer_IsAlive h peer else Some False)"

text \<open>The comparison given to \<^verbatim>\<open>sort.Slice\<close>: the XOR distances of two peers to \<open>to\<close>,
  compared as unsigned values.\<close>

definition closer :: "heap \<Rightarrow> UInt128 \<Rightarrow> Peer_ptr \<Rightarrow> Peer_ptr \<Rightarrow> bool option" where
  "closer h to p q =
     (case Peer_Id h p of
        None \<Rightarrow> None
      | Some i \<Rightarrow>
          (case Peer_Id h q of
             None \<Rightarrow> None
           | Some j \<Rightarrow> Some (Compare (Xor i to) (Xor j to) < 0)))"

text \<open>\<^verbatim>\<open>sort.Slice\<close> of Go's standard library sorts in place by the comparison and
  promises no order among elements that compare equal; the model is an insertion
  sort, which keeps them in their order. A comparison that dereferences nil ends the
  call (\<open>None\<close>).\<close>

fun sort_insert ::
  "('a \<Rightarrow> 'a \<Rightarrow> bool option) \<Rightarrow> 'a \<Rightarrow> 'a list \<Rightarrow> 'a list option" where
  "sort_insert lessf x [] = Some [x]"
| "sort_insert lessf x (y # ys) =
     (case lessf x y of
        None \<Rightarrow> None
      | Some True \<Rightarrow> Some (x # y # ys)
      | Some False \<Rightarrow> map_option ((#) y) (sort_insert lessf x ys))"

fun sort_Slice :: "('a \<Rightarrow> 'a \<Rightarrow> bool option) \<Rightarrow> 'a list \<Rightarrow> 'a list option" where
  "sort_Slice lessf [] = Some []"
| "sort_Slice lessf (x # xs) =
     (case sort_Slice lessf xs of
        None \<Rightarrow> None
      | Some ys \<Rightarrow> sort_insert lessf x ys)"

text \<open>Writing the sorted elements back into the array behind the slice.\<close>

definition slice_store :: "slice \<Rightarrow> Peer_ptr list \<Rightarrow> heap \<Rightarrow> heap" where
  "slice_store s ys h =
     (let a = arrays h ! arr s
      in h\<lparr>arrays := (arrays h)[arr s :=
            take (off s) a @ ys @ drop (off s + length ys) a]\<rparr>)"

text \<open>\<^verbatim>\<open>GetClosestPeers\<close> takes no lock. \<^verbatim>\<open>max\<close> is an \<^verbatim>\<open>int\<close>: \<^verbatim>\<open>peerCpy[0:max]\<close>
  with a negative \<^verbatim>\<open>max\<close> is out of range.\<close>

definition GetClosestPeers ::
  "UInt128 \<Rightarrow> int \<Rightarrow> kBucket \<Rightarrow> heap \<Rightarrow> slice outcome \<times> heap" where
  "GetClosestPeers to mx b h =
     (if len (peers b) > 0 then
        (case Peers b h of
           (cpy, h1) \<Rightarrow>
             (case Filter cpy (active h1) h1 of
                None \<Rightarrow> (Panics nil_dereference, h1)
              | Some (peerCpy, h2) \<Rightarrow>
                  (case sort_Slice (closer h2 to) (slice_elems h2 peerCpy) of
                     None \<Rightarrow> (Panics nil_dereference, h2)
                   | Some sorted_elems \<Rightarrow>
                       (let h3 = slice_store peerCpy sorted_elems h2
                        in if int (len peerCpy) > mx then
                             (if mx < 0 then (Panics slice_bounds, h3)
                              else (Returns (reslice peerCpy 0 (nat mx)), h3))
                           else (Returns peerCpy, h3)))))
      else
        (case make_slice 0 h of (s, h') \<Rightarrow> (Returns s, h')))"

section \<open>Recency tracking\<close>

definition pushToEnd ::
  "Peer_ptr \<Rightarrow> kBucket \<Rightarrow> heap \<Rightarrow> error option outcome \<times> kBucket \<times> heap" where
  "pushToEnd peer b h =
     (case Lock b of
        None \<Rightarrow> (Blocks, b, h)
      | Some b1 \<Rightarrow>
          (case index_scan (\<lambda>currPeer. Peer_Equal h peer currPeer) (slice_elems h (peers b1)) 0 of
             Returns (Some position) \<Rightarrow>
               (case go_append (reslice (peers b1) 0 position)
                       (slice_elems h (reslice (peers b1) (position + 1) (len (peers b1)))) h of
                  (s1, h1) \<Rightarrow>
                    (case go_append s1 [peer] h1 of
                       (s2, h2) \<Rightarrow> (Returns None, Unlock (b1\<lparr>peers := s2\<rparr>), h2)))
           | Returns None \<Rightarrow> (Returns (Some PeerNotFoundToPush), Unlock b1, h)
           | Panics m \<Rightarrow> (Panics m, b1, h)
           | Blocks \<Rightarrow> (Blocks, b1, h)))"

definition SetPeerAlive ::
  "(Peer \<Rightarrow> nat) \<Rightarrow> UInt128 \<Rightarrow> kBucket \<Rightarrow> heap \<Rightarrow> error option outcome \<times> kBucket \<times> heap" where
  "SetPeerAlive upd ident b h =
     (case GetPeer ident b h of
        (Returns (inPeer, Some err), b1) \<Rightarrow> (Returns (Some err), b1, h)
      | (Returns (inPeer, None), b1) \<Rightarrow>
          (case Peer_UpdateType upd h inPeer of
             None \<Rightarrow> (Panics nil_dereference, b1, h)
           | Some h1 \<Rightarrow> pushToEnd inPeer b1 h1)
      | (Panics m, b1) \<Rightarrow> (Panics m, b1, h)
      | (Blocks, b1) \<Rightarrow> (Blocks, b1, h))"

section \<open>Well-formed states and the invariants of the data model\<close>

text \<open>A slice is inside its backing array. A slice of capacity zero (Go's nil slice
  among them) is a window of width zero on any allocated array.\<close>

definition slice_ok :: "heap \<Rightarrow> slice \<Rightarrow> bool" where
  "slice_ok h s =
     (arr s < length (arrays h) \<and> off s + cap s \<le> length (arrays h ! arr s) \<and> len s \<le> cap s)"

abbreviation occupants :: "kBucket \<Rightarrow> heap \<Rightarrow> Peer_ptr list" where
  "occupants b h \<equiv> slice_elems h (peers b)"

text \<open>The states the operations are specified on: the collection is inside its array
  and holds no nil pointer.\<close>

definition well_formed :: "kBucket \<Rightarrow> heap \<Rightarrow> bool" where
  "well_formed b h = (slice_ok h (peers b) \<and> nil \<notin> set (occupants b h))"

text \<open>The occupants on the address \<open>x\<close>, as \<^verbatim>\<open>AddPeer\<close> counts them.\<close>

definition on_address :: "heap \<Rightarrow> IP \<Rightarrow> Peer_ptr list \<Rightarrow> Peer_ptr list" where
  "on_address h x ps =
     filter (\<lambda>q. case Peer_IP h q of None \<Rightarrow> False | Some y \<Rightarrow> IP_Equal y x) ps"

section \<open>Example states\<close>

text \<open>Peers for the concrete states below: peer \<open>a\<close> has the identifier \<open>a\<close> and the
  address \<open>10.0.0.(a mod 6)\<close>; it is IP-verified unless 5 divides \<open>a\<close> and alive unless
  7 divides \<open>a\<close>. \<open>example_bucket n\<close> holds the peers \<open>0, \<dots>, n - 1\<close> in this order.\<close>

definition example_peer :: "nat \<Rightarrow> Peer" where
  "example_peer a =
     \<lparr>peer_id = of_nat a, peer_ip = [10, 0, 0, of_nat (a mod 6)], udpPort = 4672,
      tcpPort = 4662, ipVerified = (a mod 5 \<noteq> 0), isAlive = (a mod 7 \<noteq> 0), freshness = 0\<rparr>"

definition example_heap :: "nat \<Rightarrow> heap" where
  "example_heap n = \<lparr>arrays = [map Ptr [0..<n]], objs = example_peer\<rparr>"

definition example_bucket :: "nat \<Rightarrow> kBucket" where
  "example_bucket n = \<lparr>peers = \<lparr>arr = 0, off = 0, len = n, cap = n\<rparr>, peersAccess = False\<rparr>"

section \<open>Sequences of calls\<close>

text \<open>The mutating calls of the bucket's interface. A sequence of calls runs as long
  as the calls return; a call that panics or blocks ends the run in the state it left
  behind.\<close>

datatype call =
  AddPeerCall Peer_ptr
| RemovePeerCall Peer_ptr
| SetPeerAliveCall "Peer \<Rightarrow> nat" UInt128

definition perform :: "call \<Rightarrow> kBucket \<Rightarrow> heap \<Rightarrow> error option outcome \<times> kBucket \<times> heap" where
  "perform c b h =
     (case c of
        AddPeerCall p \<Rightarrow> AddPeer p b h
      | RemovePeerCall p \<Rightarrow> RemovePeer p b h
      | SetPeerAliveCall upd ident \<Rightarrow> SetPeerAlive upd ident b h)"

fun run :: "call list \<Rightarrow> kBucket \<Rightarrow> heap \<Rightarrow> kBucket \<times> heap" where
  "run [] b h = (b, h)"
| "run (c # cs) b h =
     (case perform c b h of
        (Returns e, b', h') \<Rightarrow> run cs b' h'
      | (Panics m, b', h') \<Rightarrow> (b', h')
      | (Blocks, b', h') \<Rightarrow> (b', h'))"

text \<open>The invariants I1 and I2 of the data model: no two occupants with one identifier,
  and no address with more than \<open>maxPeersPerIP\<close> occupants.\<close>

definition unique_ids :: "kBucket \<Rightarrow> heap \<Rightarrow> bool" where
  "unique_ids b h = distinct (map (Peer_Id h) (occupants b h))"

definition per_address_bounded :: "kBucket \<Rightarrow> heap \<Rightarrow> bool" where
  "per_address_bounded b h =
     (\<forall>x. length (on_address h x (occupants b h)) \<le> maxPeersPerIP)"

text \<open>The XOR distance of a peer to a target, as the comparison of \<^verbatim>\<open>GetClosestPeers\<close>
  computes it, for stating the order of its result.\<close>

definition Peer_distance :: "heap \<Rightarrow> UInt128 \<Rightarrow> Peer_ptr \<Rightarrow> UInt128 option" where
  "Peer_distance h to p = map_option (\<lambda>i. Xor i to) (Peer_Id h p)"

section \<open>Slices and the store\<close>

lemma take_prefix_exact:
  "length t = n \<Longrightarrow> take (n + length xs) (t @ xs @ r) = t @ xs"
  by simp

lemma slice_elems_length: "slice_ok h s \<Longrightarrow> length (slice_elems h s) = len s"
  by (auto simp: slice_ok_def slice_elems_def)

lemma go_append_elems:
  assumes "slice_ok h s" and "go_append s xs h = (s', h')"
  shows "slice_elems h' s' = slice_elems h s @ xs"
proof (cases "len s + length xs \<le> cap s")
  case True
  let ?a = "arrays h ! arr s"
  let ?k = "off s + len s"
  let ?a' = "take ?k ?a @ xs @ drop (?k + length xs) ?a"
  from assms True have s': "s' = s\<lparr>len := len s + length xs\<rparr>"
    and h': "h' = h\<lparr>arrays := (arrays h)[arr s := ?a']\<rparr>"
    by (auto simp: go_append_def Let_def)
  from assms(1) True have bound: "?k + length xs \<le> length ?a" and arr: "arr s < length (arrays h)"
    by (auto simp: slice_ok_def)
  have "slice_elems h' s' = take (len s + length xs) (drop (off s) ?a')"
    using arr by (simp add: s' h' slice_elems_def)
  also have "drop (off s) ?a' = take (len s) (drop (off s) ?a) @ xs @ drop (?k + length xs) ?a"
    using bound by (simp add: drop_take)
  also have "take (len s + length xs) \<dots> = take (len s) (drop (off s) ?a) @ xs"
  proof (rule take_prefix_exact)
    show "length (take (len s) (drop (off s) ?a)) = len s"
      using bound by simp
  qed
  finally show ?thesis by (simp add: slice_elems_def)
next
  case False
  define c where "c = max (len s + length xs) (2 * cap s)"
  from assms False have s': "s' = \<lparr>arr = length (arrays h), off = 0, len = len s + length xs, cap = c\<rparr>"
    and h': "h' = h\<lparr>arrays := arrays h @
                 [slice_elems h s @ xs @ replicate (c - (len s + length xs)) nil]\<rparr>"
    by (auto simp: go_append_def Let_def c_def)
  have "slice_elems h' s' =
          take (len s + length xs)
            (slice_elems h s @ xs @ replicate (c - (len s + length xs)) nil)"
    by (simp add: s' h' slice_elems_def)
  also have "\<dots> = slice_elems h s @ xs"
    by (rule take_prefix_exact) (rule slice_elems_length [OF assms(1)])
  finally show ?thesis .
qed

lemma go_append_ok:
  assumes "slice_ok h s" and "go_append s xs h = (s', h')"
  shows "slice_ok h' s'" and "len s' = len s + length xs" and "objs h' = objs h"
  using assms
  by (auto simp: go_append_def Let_def slice_ok_def slice_elems_def nth_append min_def split: if_splits)

lemma go_append_len: "go_append s xs h = (s', h') \<Longrightarrow> len s' = len s + length xs"
  by (auto simp: go_append_def Let_def split: if_splits)

lemma go_append_frame:
  assumes "slice_ok h s" and "go_append s xs h = (s', h')" and "slice_ok h t" and "arr t \<noteq> arr s"
  shows "slice_elems h' t = slice_elems h t" and "slice_ok h' t" and "arr s' \<noteq> arr t"
  using assms
  by (auto simp: go_append_def Let_def slice_ok_def slice_elems_def nth_append split: if_splits)

lemma reslice_elems:
  assumes "lo \<le> hi" and "hi \<le> len s"
  shows "slice_elems h (reslice s lo hi) = take (hi - lo) (drop lo (slice_elems h s))"
  using assms by (simp add: slice_elems_def reslice_def drop_take add.commute)

lemma reslice_ok:
  assumes "slice_ok h s" and "lo \<le> hi" and "hi \<le> cap s"
  shows "slice_ok h (reslice s lo hi)"
  using assms by (auto simp: slice_ok_def reslice_def)

lemma remove_at:
  assumes ok: "slice_ok h s" and i: "i < len s"
    and app: "go_append (reslice s 0 i) (slice_elems h (reslice s (i + 1) (len s))) h = (s', h')"
  shows "slice_elems h' s' = take i (slice_elems h s) @ drop (Suc i) (slice_elems h s)"
    and "slice_ok h' s'" and "len s' = len s - 1" and "objs h' = objs h" and "arr s' = arr s"
proof -
  have ok0: "slice_ok h (reslice s 0 i)"
    using ok i by (intro reslice_ok) (auto simp: slice_ok_def)
  have e0: "slice_elems h (reslice s 0 i) = take i (slice_elems h s)"
    using i by (simp add: reslice_elems)
  have e1: "slice_elems h (reslice s (Suc i) (len s)) = drop (Suc i) (slice_elems h s)"
    using i ok by (simp add: reslice_elems slice_elems_length)
  show "slice_elems h' s' = take i (slice_elems h s) @ drop (Suc i) (slice_elems h s)"
    using go_append_elems [OF ok0 app] by (simp add: e0 e1)
  show "slice_ok h' s'" by (rule go_append_ok(1) [OF ok0 app])
  show "len s' = len s - 1"
    using go_append_ok(2) [OF ok0 app] i ok
    by (simp add: e1 slice_elems_length) (simp add: reslice_def)
  show "objs h' = objs h" by (rule go_append_ok(3) [OF ok0 app])
  have fits: "len (reslice s 0 i) + length (slice_elems h (reslice s (Suc i) (len s))) \<le> cap (reslice s 0 i)"
    using i ok by (simp add: e1 slice_elems_length) (auto simp: reslice_def slice_ok_def)
  show "arr s' = arr s"
    using app fits by (auto simp: go_append_def Let_def reslice_def)
qed

lemma removal_frame:
  assumes ok: "slice_ok h s" and i: "i < len s"
    and app: "go_append (reslice s 0 i) (slice_elems h (reslice s (i + 1) (len s))) h = (s', h')"
    and t: "slice_ok h t" and ne: "arr t \<noteq> arr s"
  shows "slice_elems h' t = slice_elems h t" and "slice_ok h' t" and "arr t \<noteq> arr s'"
    and "slice_ok h' s'"
proof -
  have ok0: "slice_ok h (reslice s 0 i)"
    using ok i by (intro reslice_ok) (auto simp: slice_ok_def)
  have ne0: "arr t \<noteq> arr (reslice s 0 i)" using ne by (simp add: reslice_def)
  note fr = go_append_frame [OF ok0 app t ne0]
  show "slice_elems h' t = slice_elems h t" by (rule fr(1))
  show "slice_ok h' t" by (rule fr(2))
  show "arr t \<noteq> arr s'" using fr(3) by simp
  show "slice_ok h' s'" by (rule go_append_ok(1) [OF ok0 app])
qed

lemma slice_store_elems:
  assumes "slice_ok h s" and "length ys = len s"
  shows "slice_elems (slice_store s ys h) s = ys" and "objs (slice_store s ys h) = objs h"
    and "slice_ok (slice_store s ys h) s"
proof -
  let ?a = "arrays h ! arr s"
  let ?a' = "take (off s) ?a @ ys @ drop (off s + length ys) ?a"
  have bound: "off s + length ys \<le> length ?a" and lt: "arr s < length (arrays h)"
    using assms by (auto simp: slice_ok_def)
  have h': "slice_store s ys h = h\<lparr>arrays := (arrays h)[arr s := ?a']\<rparr>"
    by (simp add: slice_store_def Let_def)
  have "drop (off s) ?a' = ys @ drop (off s + length ys) ?a"
    using bound by simp
  then show "slice_elems (slice_store s ys h) s = ys"
    using lt assms(2) by (simp add: h' slice_elems_def)
  show "objs (slice_store s ys h) = objs h" by (simp add: h')
  show "slice_ok (slice_store s ys h) s"
    using assms(1) bound lt by (simp add: h' slice_ok_def)
qed

lemma Peers_snapshot:
  assumes "slice_ok h (peers b)" and "Peers b h = (t, h1)"
  shows "slice_elems h1 t = occupants b h" and "slice_ok h1 t" and "arr t \<noteq> arr (peers b)"
    and "slice_ok h1 (peers b)" and "occupants b h1 = occupants b h" and "objs h1 = objs h"
    and "len t = len (peers b)"
proof -
  let ?n = "len (peers b)"
  let ?h0 = "h\<lparr>arrays := arrays h @ [replicate ?n nil]\<rparr>"
  have t: "t = \<lparr>arr = length (arrays h), off = 0, len = ?n, cap = ?n\<rparr>"
    and h1: "h1 = go_copy t (peers b) ?h0"
    using assms(2) by (auto simp: Peers_def make_slice_def)
  have lt: "arr (peers b) < length (arrays h)" using assms(1) by (simp add: slice_ok_def)
  have src: "slice_elems ?h0 (peers b) = occupants b h"
    using lt by (simp add: slice_elems_def nth_append)
  have len: "length (occupants b h) = ?n" by (rule slice_elems_length [OF assms(1)])
  have arrs: "arrays h1 = arrays h @ [occupants b h]"
    using len by (simp add: h1 go_copy_def t src Let_def)
  show "slice_elems h1 t = occupants b h"
    using len by (simp add: slice_elems_def arrs t)
  show "slice_ok h1 t" using len by (simp add: slice_ok_def arrs t)
  show "arr t \<noteq> arr (peers b)" using lt by (simp add: t)
  show "slice_ok h1 (peers b)" using assms(1) lt by (simp add: slice_ok_def arrs nth_append)
  show "occupants b h1 = occupants b h" using lt by (simp add: slice_elems_def arrs nth_append)
  show "objs h1 = objs h" by (simp add: h1 go_copy_def Let_def)
  show "len t = len (peers b)" by (simp add: t)
qed

section \<open>The mutex, the peers and their addresses\<close>

lemma Lock_free: "\<not> peersAccess b \<Longrightarrow> Lock b = Some (b\<lparr>peersAccess := True\<rparr>)"
  by (simp add: Lock_def)

lemma Unlock_Lock: "\<not> peersAccess b \<Longrightarrow> Unlock (b\<lparr>peersAccess := True\<rparr>) = b"
  by (cases b) (simp add: Unlock_def)

lemma Unlock_Lock_peers:
  "\<not> peersAccess b \<Longrightarrow> Unlock (b\<lparr>peersAccess := True, peers := s\<rparr>) = b\<lparr>peers := s\<rparr>"
  by (cases b) (simp add: Unlock_def)

lemma Peer_Equal_Ptr:
  "Peer_Equal h (Ptr a) (Ptr c) = Some (peer_id (objs h a) = peer_id (objs h c))"
  by (simp add: Peer_Equal_def Peer_Id_def deref_def UInt128_Equal_def)

lemma Peer_Id_Ptr: "Peer_Id h (Ptr a) = Some (peer_id (objs h a))"
  by (simp add: Peer_Id_def deref_def)

lemma Peer_IP_Ptr: "Peer_IP h (Ptr a) = Some (peer_ip (objs h a))"
  by (simp add: Peer_IP_def deref_def)

lemma Peer_Equal_left:
  "q \<noteq> nil \<Longrightarrow> Peer_Equal h q (Ptr a) = Some (Peer_Id h q = Peer_Id h (Ptr a))"
  by (cases q) (auto simp: Peer_Equal_Ptr Peer_Id_Ptr)

lemma Peer_Equal_right:
  "q \<noteq> nil \<Longrightarrow> Peer_Equal h (Ptr a) q = Some (Peer_Id h q = Peer_Id h (Ptr a))"
  by (cases q) (auto simp: Peer_Equal_Ptr Peer_Id_Ptr)

lemma same_objs:
  assumes "objs h' = objs h"
  shows "Peer_Id h' = Peer_Id h" and "Peer_IP h' = Peer_IP h"
    and "Peer_IsIpVerified h' = Peer_IsIpVerified h" and "Peer_IsAlive h' = Peer_IsAlive h"
  by (intro ext; simp add: Peer_Id_def Peer_IP_def Peer_IsIpVerified_def Peer_IsAlive_def
      deref_def assms split: Peer_ptr.splits)+

lemma on_address_same_objs:
  assumes "objs h' = objs h"
  shows "on_address h' = on_address h"
  by (intro ext) (simp add: on_address_def same_objs(2) [OF assms])

lemma UpdateType_frame:
  assumes "Peer_UpdateType upd h p = Some h1"
  shows "arrays h1 = arrays h" and "Peer_Id h1 = Peer_Id h" and "Peer_IP h1 = Peer_IP h"
    and "Peer_IsIpVerified h1 = Peer_IsIpVerified h" and "Peer_IsAlive h1 = Peer_IsAlive h"
    and "\<exists>a. p = Ptr a \<and> objs h1 = (objs h)(a := (objs h a)\<lparr>freshness := upd (objs h a)\<rparr>)"
  using assms
  by (auto simp: Peer_UpdateType_def Peer_Id_def Peer_IP_def Peer_IsIpVerified_def
      Peer_IsAlive_def deref_def fun_eq_iff split: Peer_ptr.splits if_splits)

lemma UpdateType_elems:
  assumes "Peer_UpdateType upd h p = Some h1"
  shows "slice_elems h1 = slice_elems h" and "slice_ok h1 = slice_ok h" and "well_formed b h1 = well_formed b h"
    and "on_address h1 = on_address h"
  using UpdateType_frame [OF assms]
  by (simp_all add: slice_elems_def slice_ok_def well_formed_def on_address_def fun_eq_iff)

lemma IP_Equal_refl: "IP_Equal x x"
  by (simp add: IP_Equal_def)

lemma IP_Equal_sym: "IP_Equal x y \<Longrightarrow> IP_Equal y x"
  by (auto simp: IP_Equal_def split: if_splits)

lemma IP_Equal_trans:
  assumes "IP_Equal x y" and "IP_Equal y z"
  shows "IP_Equal x z"
proof -
  have glue: "\<And>u v :: IP. take 12 u = take 12 v \<Longrightarrow> drop 12 u = drop 12 v \<Longrightarrow> u = v"
    by (metis append_take_drop_id)
  consider "length x = length y" | "length x = 4" "length y = 16" | "length x = 16" "length y = 4"
    using assms(1) by (auto simp: IP_Equal_def split: if_splits)
  then show ?thesis
  proof cases
    case 1
    with assms show ?thesis by (simp add: IP_Equal_def)
  next
    case 2
    with assms show ?thesis
      by (auto simp: IP_Equal_def split: if_splits)
  next
    case 3
    with assms show ?thesis
      by (auto simp: IP_Equal_def intro: glue split: if_splits)
  qed
qed

lemma on_address_cong:
  assumes "IP_Equal x y"
  shows "on_address h x ps = on_address h y ps"
  unfolding on_address_def
  by (rule filter_cong)
     (auto split: option.splits intro: IP_Equal_trans assms IP_Equal_sym [OF assms])

text \<open>The bound need only be checked at the addresses of the occupants.\<close>

lemma per_address_bounded_code [code]:
  "per_address_bounded b h =
     list_all (\<lambda>q. case Peer_IP h q of None \<Rightarrow> True
                    | Some y \<Rightarrow> length (on_address h y (occupants b h)) \<le> maxPeersPerIP)
       (occupants b h)"
proof
  assume "per_address_bounded b h"
  then show "list_all (\<lambda>q. case Peer_IP h q of None \<Rightarrow> True
                    | Some y \<Rightarrow> length (on_address h y (occupants b h)) \<le> maxPeersPerIP)
       (occupants b h)"
    by (auto simp: per_address_bounded_def list_all_iff split: option.splits)
next
  assume a: "list_all (\<lambda>q. case Peer_IP h q of None \<Rightarrow> True
                    | Some y \<Rightarrow> length (on_address h y (occupants b h)) \<le> maxPeersPerIP)
       (occupants b h)"
  show "per_address_bounded b h"
    unfolding per_address_bounded_def
  proof
    fix x
    show "length (on_address h x (occupants b h)) \<le> maxPeersPerIP"
    proof (cases "on_address h x (occupants b h)")
      case Nil
      then show ?thesis by simp
    next
      case (Cons q qs)
      then have "q \<in> set (on_address h x (occupants b h))" by simp
      then obtain y where q: "q \<in> set (occupants b h)" and y: "Peer_IP h q = Some y"
        and e: "IP_Equal y x"
        by (auto simp: on_address_def split: option.splits)
      from a q y have "length (on_address h y (occupants b h)) \<le> maxPeersPerIP"
        by (auto simp: list_all_iff)
      with on_address_cong [OF e, of h "occupants b h"] show ?thesis by simp
    qed
  qed
qed

section \<open>The first match in a list\<close>

lemma first_match_index:
  assumes "\<exists>q\<in>set xs. P q"
  shows "length (takeWhile (\<lambda>q. \<not> P q) xs) < length xs"
    and "take (length (takeWhile (\<lambda>q. \<not> P q) xs)) xs = takeWhile (\<lambda>q. \<not> P q) xs"
    and "drop (Suc (length (takeWhile (\<lambda>q. \<not> P q) xs))) xs = tl (dropWhile (\<lambda>q. \<not> P q) xs)"
proof -
  show "length (takeWhile (\<lambda>q. \<not> P q) xs) < length xs"
    using assms by (induction xs) auto
  show "take (length (takeWhile (\<lambda>q. \<not> P q) xs)) xs = takeWhile (\<lambda>q. \<not> P q) xs"
    by (simp add: takeWhile_eq_take [symmetric])
  show "drop (Suc (length (takeWhile (\<lambda>q. \<not> P q) xs))) xs = tl (dropWhile (\<lambda>q. \<not> P q) xs)"
    by (simp add: dropWhile_eq_drop drop_Suc tl_drop)
qed

lemma in_set_tl: "x \<in> set (tl ys) \<Longrightarrow> x \<in> set ys"
  by (cases ys) auto

lemma first_match_split:
  assumes "\<exists>q\<in>set xs. P q"
  obtains ys q zs where "xs = ys @ q # zs" and "P q" and "\<forall>y\<in>set ys. \<not> P y"
    and "takeWhile (\<lambda>q. \<not> P q) xs = ys" and "tl (dropWhile (\<lambda>q. \<not> P q) xs) = zs"
proof -
  let ?ys = "takeWhile (\<lambda>q. \<not> P q) xs" and ?ds = "dropWhile (\<lambda>q. \<not> P q) xs"
  have ne: "?ds \<noteq> []" using assms by (auto simp: dropWhile_eq_Nil_conv)
  then have ds: "?ds = hd ?ds # tl ?ds" by simp
  have "P (hd ?ds)" using hd_dropWhile [OF ne] by simp
  moreover have "xs = ?ys @ hd ?ds # tl ?ds"
    using ds takeWhile_dropWhile_id [of "\<lambda>q. \<not> P q" xs] by simp
  moreover have "\<forall>y\<in>set ?ys. \<not> P y" by (auto dest: set_takeWhileD)
  ultimately show ?thesis using that by blast
qed

lemma without_first_match:
  assumes "xs = ys @ q # zs"
  shows "distinct (map f xs) \<Longrightarrow> distinct (map f (ys @ zs))"
    and "length (filter Q (ys @ zs)) \<le> length (filter Q xs)"
    and "distinct (map f xs) \<Longrightarrow> distinct (map f (ys @ zs @ [q]))"
    and "length (filter Q (ys @ zs @ [q])) = length (filter Q xs)"
  using assms by auto

lemma find_first_match:
  assumes "find P xs = Some q"
  shows "P q" and "q \<in> set xs" and "dropWhile (\<lambda>x. \<not> P x) xs = q # tl (dropWhile (\<lambda>x. \<not> P x) xs)"
  using assms by (induction xs) (auto split: if_splits)

lemma find_snoc:
  "find P (xs @ [x]) = (case find P xs of Some y \<Rightarrow> Some y | None \<Rightarrow> if P x then Some x else None)"
  by (induction xs) auto

section \<open>The operations on a bucket without nil entries\<close>

lemma AddPeer_scan_eq:
  assumes "nil \<notin> set xs"
  shows "AddPeer_scan h (Ptr a) xs n =
           (if Peer_Id h (Ptr a) \<in> Peer_Id h ` set xs then Inl (Returns (Some DuplicatePeer))
            else Inr (n + length (on_address h (peer_ip (objs h a)) xs)))"
  using assms
proof (induction xs arbitrary: n)
  case Nil
  then show ?case by (simp add: on_address_def)
next
  case (Cons q xs)
  then obtain c where q: "q = Ptr c" by (cases q) auto
  from Cons have IH: "\<And>n. AddPeer_scan h (Ptr a) xs n =
           (if Peer_Id h (Ptr a) \<in> Peer_Id h ` set xs then Inl (Returns (Some DuplicatePeer))
            else Inr (n + length (on_address h (peer_ip (objs h a)) xs)))"
    by simp
  show ?case
  proof (cases "peer_id (objs h c) = peer_id (objs h a)")
    case True
    then show ?thesis
      by (simp add: q Peer_Equal_Ptr Peer_Id_Ptr)
  next
    case False
    then have "peer_id (objs h a) \<noteq> peer_id (objs h c)" by simp
    with False show ?thesis
      by (simp add: q Peer_Equal_Ptr Peer_IP_Ptr IH) (simp add: Peer_Id_Ptr on_address_def Peer_IP_Ptr)
  qed
qed

lemma AddPeer_nil: "AddPeer nil b h = (Returns (Some InvalidArgument), b, h)"
  by (simp add: AddPeer_def)

lemma AddPeer_duplicate:
  assumes "well_formed b h" and "\<not> peersAccess b"
    and "Peer_Id h (Ptr a) \<in> Peer_Id h ` set (occupants b h)"
  shows "AddPeer (Ptr a) b h = (Returns (Some DuplicatePeer), b, h)"
  using assms
  by (simp add: AddPeer_def Lock_free well_formed_def AddPeer_scan_eq Unlock_Lock)

lemma AddPeer_full:
  assumes "well_formed b h" and "\<not> peersAccess b"
    and "Peer_Id h (Ptr a) \<notin> Peer_Id h ` set (occupants b h)"
    and "maxBucketSize \<le> len (peers b)"
  shows "AddPeer (Ptr a) b h = (Returns (Some BucketFull), b, h)"
  using assms
  by (simp add: AddPeer_def Lock_free well_formed_def AddPeer_scan_eq Unlock_Lock)

lemma AddPeer_many:
  assumes "well_formed b h" and "\<not> peersAccess b"
    and "Peer_Id h (Ptr a) \<notin> Peer_Id h ` set (occupants b h)"
    and "len (peers b) < maxBucketSize"
    and "maxPeersPerIP \<le> length (on_address h (peer_ip (objs h a)) (occupants b h))"
  shows "AddPeer (Ptr a) b h = (Returns (Some TooManyFromSameAddress), b, h)"
  using assms
  by (simp add: AddPeer_def Lock_free well_formed_def AddPeer_scan_eq Unlock_Lock)

lemma AddPeer_admits:
  assumes "well_formed b h" and "\<not> peersAccess b"
    and "Peer_Id h (Ptr a) \<notin> Peer_Id h ` set (occupants b h)"
    and "len (peers b) < maxBucketSize"
    and "length (on_address h (peer_ip (objs h a)) (occupants b h)) < maxPeersPerIP"
    and "AddPeer (Ptr a) b h = (r, b', h')"
  shows "r = Returns None" and "occupants b' h' = occupants b h @ [Ptr a]"
    and "well_formed b' h'" and "\<not> peersAccess b'" and "objs h' = objs h"
    and "len (peers b') = Suc (len (peers b))"
proof -
  obtain s where app: "go_append (peers b) [Ptr a] h = (s, h')"
    and r: "r = Returns None" and b': "b' = b\<lparr>peers := s\<rparr>"
    using assms
    by (auto simp: AddPeer_def Lock_free well_formed_def AddPeer_scan_eq Unlock_Lock_peers
        split: prod.splits)
  have ok: "slice_ok h (peers b)" using assms(1) by (simp add: well_formed_def)
  show "r = Returns None" by (rule r)
  show el: "occupants b' h' = occupants b h @ [Ptr a]"
    using go_append_elems [OF ok app] by (simp add: b')
  show "well_formed b' h'"
    using go_append_ok(1) [OF ok app] el assms(1) by (simp add: well_formed_def b')
  show "\<not> peersAccess b'" using assms(2) by (simp add: b')
  show "objs h' = objs h" by (rule go_append_ok(3) [OF ok app])
  show "len (peers b') = Suc (len (peers b))"
    using go_append_ok(2) [OF ok app] by (simp add: b')
qed

lemma AddPeer_cases:
  assumes "well_formed b h" and "\<not> peersAccess b" and "AddPeer p b h = (r, b', h')"
  obtains (rejected) e where "r = Returns (Some e)" and "b' = b" and "h' = h"
  | (admitted) a where "p = Ptr a" and "r = Returns None"
      and "Peer_Id h p \<notin> Peer_Id h ` set (occupants b h)"
      and "len (peers b) < maxBucketSize"
      and "length (on_address h (peer_ip (objs h a)) (occupants b h)) < maxPeersPerIP"
      and "occupants b' h' = occupants b h @ [Ptr a]"
      and "well_formed b' h'" and "\<not> peersAccess b'" and "objs h' = objs h"
proof (cases p)
  case nil
  with assms(3) have "r = Returns (Some InvalidArgument)" and "b' = b" and "h' = h"
    by (auto simp: AddPeer_nil)
  then show ?thesis by (rule rejected)
next
  case (Ptr a)
  show ?thesis
  proof (cases "Peer_Id h (Ptr a) \<in> Peer_Id h ` set (occupants b h)")
    case True
    from AddPeer_duplicate [OF assms(1,2) True] assms(3)
    have "r = Returns (Some DuplicatePeer)" and "b' = b" and "h' = h"
      by (auto simp: Ptr)
    then show ?thesis by (rule rejected)
  next
    case fresh: False
    show ?thesis
    proof (cases "maxBucketSize \<le> len (peers b)")
      case True
      from AddPeer_full [OF assms(1,2) fresh True] assms(3)
      have "r = Returns (Some BucketFull)" and "b' = b" and "h' = h"
        by (auto simp: Ptr)
      then show ?thesis by (rule rejected)
    next
      case room: False
      then have room': "len (peers b) < maxBucketSize" by simp
      show ?thesis
      proof (cases "maxPeersPerIP \<le> length (on_address h (peer_ip (objs h a)) (occupants b h))")
        case True
        from AddPeer_many [OF assms(1,2) fresh room' True] assms(3)
        have "r = Returns (Some TooManyFromSameAddress)" and "b' = b" and "h' = h"
          by (auto simp: Ptr)
        then show ?thesis by (rule rejected)
      next
        case False
        then have few: "length (on_address h (peer_ip (objs h a)) (occupants b h)) < maxPeersPerIP"
          by simp
        from assms(3) have add: "AddPeer (Ptr a) b h = (r, b', h')" by (simp add: Ptr)
        note ad = AddPeer_admits [OF assms(1,2) fresh room' few add]
        from fresh have fresh': "Peer_Id h p \<notin> Peer_Id h ` set (occupants b h)"
          by (simp add: Ptr)
        show ?thesis
          by (rule admitted [OF Ptr ad(1) fresh' room' few ad(2,3,4,5)])
      qed
    qed
  qed
qed

lemma index_scan_eq:
  assumes "\<forall>q\<in>set xs. eq q = Some (P q)"
  shows "index_scan eq xs k =
           Returns (if \<exists>q\<in>set xs. P q then Some (k + length (takeWhile (\<lambda>q. \<not> P q) xs))
                    else None)"
  using assms by (induction xs arbitrary: k) auto

lemma index_scan_bound:
  "index_scan eq xs k = Returns (Some i) \<Longrightarrow> k \<le> i \<and> i < k + length xs"
proof (induction xs arbitrary: k)
  case Nil
  then show ?case by simp
next
  case (Cons q xs)
  show ?case
  proof (cases "eq q")
    case None
    with Cons.prems show ?thesis by simp
  next
    case (Some t)
    show ?thesis
    proof (cases t)
      case True
      with Some Cons.prems show ?thesis by simp
    next
      case False
      with Some Cons.prems have "index_scan eq xs (k + 1) = Returns (Some i)" by simp
      from Cons.IH [OF this] show ?thesis by simp
    qed
  qed
qed

lemma RemovePeer_nil:
  assumes "well_formed b h" and "\<not> peersAccess b"
  shows "RemovePeer nil b h =
           (if occupants b h = [] then (Returns (Some PeerNotFound), b, h)
            else (Panics nil_dereference, b\<lparr>peersAccess := True\<rparr>, h))"
proof (cases "occupants b h")
  case Nil
  with assms show ?thesis by (simp add: RemovePeer_def Lock_free Unlock_Lock)
next
  case (Cons q qs)
  have "Peer_Equal h q nil = None"
    by (simp add: Peer_Equal_def Peer_Id_def deref_def split: option.splits)
  with Cons assms show ?thesis by (simp add: RemovePeer_def Lock_free)
qed

lemma RemovePeer_missing:
  assumes "well_formed b h" and "\<not> peersAccess b"
    and "Peer_Id h (Ptr a) \<notin> Peer_Id h ` set (occupants b h)"
  shows "RemovePeer (Ptr a) b h = (Returns (Some PeerNotFound), b, h)"
proof -
  have eq: "\<forall>q\<in>set (occupants b h). Peer_Equal h q (Ptr a) = Some (Peer_Id h q = Peer_Id h (Ptr a))"
    using assms(1) by (auto simp: well_formed_def intro!: Peer_Equal_left)
  have none: "\<not> (\<exists>q\<in>set (occupants b h). Peer_Id h q = Peer_Id h (Ptr a))"
    using assms(3) by (metis image_eqI)
  show ?thesis
    using assms(2) none
    by (simp add: RemovePeer_def Lock_free index_scan_eq [OF eq] Unlock_Lock)
qed

lemma RemovePeer_found:
  assumes "well_formed b h" and "\<not> peersAccess b"
    and "Peer_Id h (Ptr a) \<in> Peer_Id h ` set (occupants b h)"
    and "RemovePeer (Ptr a) b h = (r, b', h')"
  shows "r = Returns None"
    and "occupants b' h' =
           takeWhile (\<lambda>q. Peer_Id h q \<noteq> Peer_Id h (Ptr a)) (occupants b h) @
           tl (dropWhile (\<lambda>q. Peer_Id h q \<noteq> Peer_Id h (Ptr a)) (occupants b h))"
    and "well_formed b' h'" and "\<not> peersAccess b'" and "objs h' = objs h"
    and "Suc (len (peers b')) = len (peers b)" and "arr (peers b') = arr (peers b)"
proof -
  let ?xs = "occupants b h"
  let ?i = "length (takeWhile (\<lambda>q. \<not> (Peer_Id h q = Peer_Id h (Ptr a))) ?xs)"
  have ok: "slice_ok h (peers b)" using assms(1) by (simp add: well_formed_def)
  have eq: "\<forall>q\<in>set ?xs. Peer_Equal h q (Ptr a) = Some (Peer_Id h q = Peer_Id h (Ptr a))"
    using assms(1) by (auto simp: well_formed_def intro!: Peer_Equal_left)
  have some: "\<exists>q\<in>set ?xs. Peer_Id h q = Peer_Id h (Ptr a)"
    using assms(3) by (auto simp: image_iff)
  obtain s where app: "go_append (reslice (peers b) 0 ?i)
                         (slice_elems h (reslice (peers b) (?i + 1) (len (peers b)))) h = (s, h')"
    and r: "r = Returns None" and b': "b' = b\<lparr>peers := s\<rparr>"
    using assms(2,4) some
    by (auto simp: RemovePeer_def Lock_free index_scan_eq [OF eq] Unlock_Lock_peers
        split: prod.splits)
  have i: "?i < len (peers b)"
    using first_match_index(1) [OF some] by (simp add: slice_elems_length [OF ok])
  note rm = remove_at [OF ok i app]
  show "r = Returns None" by (rule r)
  show el: "occupants b' h' =
           takeWhile (\<lambda>q. Peer_Id h q \<noteq> Peer_Id h (Ptr a)) ?xs @
           tl (dropWhile (\<lambda>q. Peer_Id h q \<noteq> Peer_Id h (Ptr a)) ?xs)"
    using rm(1) first_match_index(2,3) [OF some] by (simp add: b')
  have "set (occupants b' h') \<subseteq> set ?xs"
    unfolding el by (auto dest: set_takeWhileD in_set_tl set_dropWhileD)
  then show "well_formed b' h'"
    using rm(2) assms(1) by (auto simp: well_formed_def b')
  show "\<not> peersAccess b'" using assms(2) by (simp add: b')
  show "objs h' = objs h" by (rule rm(4))
  show "Suc (len (peers b')) = len (peers b)" using rm(3) i by (simp add: b')
  show "arr (peers b') = arr (peers b)" using rm(5) by (simp add: b')
qed

lemma RemovePeer_split:
  assumes "well_formed b h" and "\<not> peersAccess b"
    and "Peer_Id h (Ptr a) \<in> Peer_Id h ` set (occupants b h)"
    and "RemovePeer (Ptr a) b h = (r, b', h')"
  obtains ys q zs where "occupants b h = ys @ q # zs" and "Peer_Id h q = Peer_Id h (Ptr a)"
    and "Peer_Id h (Ptr a) \<notin> Peer_Id h ` set ys" and "occupants b' h' = ys @ zs"
proof -
  let ?N = "\<lambda>q. Peer_Id h q \<noteq> Peer_Id h (Ptr a)"
  note f = RemovePeer_found [OF assms]
  have "\<exists>q\<in>set (occupants b h). \<not> ?N q" using assms(3) by (auto simp: image_iff)
  then obtain ys q zs where sp: "occupants b h = ys @ q # zs" and q: "\<not> ?N q"
    and ys: "\<forall>y\<in>set ys. \<not> \<not> ?N y"
    and tk: "takeWhile (\<lambda>q. \<not> \<not> ?N q) (occupants b h) = ys"
    and dr: "tl (dropWhile (\<lambda>q. \<not> \<not> ?N q) (occupants b h)) = zs"
    by (rule first_match_split [where P = "\<lambda>q. \<not> ?N q"])
  have el: "occupants b' h' = ys @ zs" using f(2) tk dr by simp
  have "Peer_Id h (Ptr a) \<notin> Peer_Id h ` set ys" using ys by (auto simp: image_iff)
  with sp q el that show ?thesis by simp
qed

lemma GetPeer_scan_eq:
  assumes "nil \<notin> set xs"
  shows "GetPeer_scan h ident xs = Returns (find (\<lambda>q. Peer_Id h q = Some ident) xs)"
  using assms
proof (induction xs)
  case Nil
  then show ?case by simp
next
  case (Cons q xs)
  then obtain c where "q = Ptr c" by (cases q) auto
  with Cons show ?case
    by (simp add: Peer_Id_Ptr UInt128_Equal_def)
qed

lemma GetPeer_eq:
  assumes "well_formed b h" and "\<not> peersAccess b"
  shows "GetPeer ident b h =
           (case find (\<lambda>q. Peer_Id h q = Some ident) (occupants b h) of
              Some q \<Rightarrow> (Returns (q, None), b)
            | None \<Rightarrow> (Returns (nil, Some PeerNotFound), b))"
  using assms
  by (simp add: GetPeer_def Lock_free well_formed_def GetPeer_scan_eq Unlock_Lock split: option.splits)

lemma GetPeer_peers: "GetPeer ident b h = (r, b1) \<Longrightarrow> peers b1 = peers b"
  by (auto simp: GetPeer_def Lock_def Unlock_def split: if_splits outcome.splits option.splits)

lemma pushToEnd_missing:
  assumes "well_formed b h" and "\<not> peersAccess b"
    and "Peer_Id h (Ptr a) \<notin> Peer_Id h ` set (occupants b h)"
  shows "pushToEnd (Ptr a) b h = (Returns (Some PeerNotFoundToPush), b, h)"
proof -
  have eq: "\<forall>q\<in>set (occupants b h). Peer_Equal h (Ptr a) q = Some (Peer_Id h q = Peer_Id h (Ptr a))"
    using assms(1) by (auto simp: well_formed_def intro!: Peer_Equal_right)
  have none: "\<not> (\<exists>q\<in>set (occupants b h). Peer_Id h q = Peer_Id h (Ptr a))"
    using assms(3) by (metis image_eqI)
  show ?thesis
    using assms(2) none
    by (simp add: pushToEnd_def Lock_free index_scan_eq [OF eq] Unlock_Lock)
qed

lemma pushToEnd_found:
  assumes "well_formed b h" and "\<not> peersAccess b"
    and "Peer_Id h (Ptr a) \<in> Peer_Id h ` set (occupants b h)"
    and "pushToEnd (Ptr a) b h = (r, b', h')"
  shows "r = Returns None"
    and "occupants b' h' =
           takeWhile (\<lambda>q. Peer_Id h q \<noteq> Peer_Id h (Ptr a)) (occupants b h) @
           tl (dropWhile (\<lambda>q. Peer_Id h q \<noteq> Peer_Id h (Ptr a)) (occupants b h)) @ [Ptr a]"
    and "well_formed b' h'" and "\<not> peersAccess b'" and "objs h' = objs h"
    and "len (peers b') = len (peers b)"
proof -
  let ?xs = "occupants b h"
  let ?i = "length (takeWhile (\<lambda>q. \<not> (Peer_Id h q = Peer_Id h (Ptr a))) ?xs)"
  have ok: "slice_ok h (peers b)" using assms(1) by (simp add: well_formed_def)
  have eq: "\<forall>q\<in>set ?xs. Peer_Equal h (Ptr a) q = Some (Peer_Id h q = Peer_Id h (Ptr a))"
    using assms(1) by (auto simp: well_formed_def intro!: Peer_Equal_right)
  have some: "\<exists>q\<in>set ?xs. Peer_Id h q = Peer_Id h (Ptr a)"
    using assms(3) by (auto simp: image_iff)
  obtain s1 h1 s2 where app1: "go_append (reslice (peers b) 0 ?i)
                         (slice_elems h (reslice (peers b) (?i + 1) (len (peers b)))) h = (s1, h1)"
    and app2: "go_append s1 [Ptr a] h1 = (s2, h')"
    and r: "r = Returns None" and b': "b' = b\<lparr>peers := s2\<rparr>"
    using assms(2,4) some
    by (auto simp: pushToEnd_def Lock_free index_scan_eq [OF eq] Unlock_Lock_peers
        split: prod.splits)
  have i: "?i < len (peers b)"
    using first_match_index(1) [OF some] by (simp add: slice_elems_length [OF ok])
  note rm = remove_at [OF ok i app1]
  show "r = Returns None" by (rule r)
  show el: "occupants b' h' =
           takeWhile (\<lambda>q. Peer_Id h q \<noteq> Peer_Id h (Ptr a)) ?xs @
           tl (dropWhile (\<lambda>q. Peer_Id h q \<noteq> Peer_Id h (Ptr a)) ?xs) @ [Ptr a]"
    using go_append_elems [OF rm(2) app2] rm(1) first_match_index(2,3) [OF some]
    by (simp add: b')
  have "set (occupants b' h') \<subseteq> insert (Ptr a) (set ?xs)"
    unfolding el by (auto dest: set_takeWhileD in_set_tl set_dropWhileD)
  then show "well_formed b' h'"
    using go_append_ok(1) [OF rm(2) app2] assms(1) by (auto simp: well_formed_def b')
  show "\<not> peersAccess b'" using assms(2) by (simp add: b')
  show "objs h' = objs h" using go_append_ok(3) [OF rm(2) app2] rm(4) by simp
  show "len (peers b') = len (peers b)"
    using go_append_ok(2) [OF rm(2) app2] rm(3) i by (simp add: b')
qed

lemma SetPeerAlive_missing:
  assumes "well_formed b h" and "\<not> peersAccess b" and "Some ident \<notin> Peer_Id h ` set (occupants b h)"
  shows "SetPeerAlive upd ident b h = (Returns (Some PeerNotFound), b, h)"
proof -
  have "find (\<lambda>q. Peer_Id h q = Some ident) (occupants b h) = None"
    using assms(3) by (auto simp: find_None_iff image_iff)
  then show ?thesis
    using assms(1,2) by (simp add: SetPeerAlive_def GetPeer_eq)
qed

lemma SetPeerAlive_found:
  assumes "well_formed b h" and "\<not> peersAccess b" and "Some ident \<in> Peer_Id h ` set (occupants b h)"
    and "SetPeerAlive upd ident b h = (r, b', h')"
  shows "r = Returns None"
    and "\<exists>a. find (\<lambda>q. Peer_Id h q = Some ident) (occupants b h) = Some (Ptr a) \<and>
           occupants b' h' =
             takeWhile (\<lambda>q. Peer_Id h q \<noteq> Some ident) (occupants b h) @
             tl (dropWhile (\<lambda>q. Peer_Id h q \<noteq> Some ident) (occupants b h)) @ [Ptr a] \<and>
           objs h' = (objs h)(a := (objs h a)\<lparr>freshness := upd (objs h a)\<rparr>)"
    and "well_formed b' h'" and "\<not> peersAccess b'" and "len (peers b') = len (peers b)"
    and "Peer_Id h' = Peer_Id h" and "Peer_IP h' = Peer_IP h"
proof -
  let ?xs = "occupants b h"
  obtain q where f: "find (\<lambda>q. Peer_Id h q = Some ident) ?xs = Some q"
    using assms(3) by (cases "find (\<lambda>q. Peer_Id h q = Some ident) ?xs")
      (auto simp: find_None_iff image_iff)
  note fm = find_first_match [OF f]
  from fm(2) assms(1) have "q \<noteq> nil" by (auto simp: well_formed_def)
  then obtain a where q: "q = Ptr a" by (cases q) auto
  have ida: "Peer_Id h (Ptr a) = Some ident" using fm(1) q by simp
  define h1 where "h1 = h\<lparr>objs := (objs h)(a := (objs h a)\<lparr>freshness := upd (objs h a)\<rparr>)\<rparr>"
  have up: "Peer_UpdateType upd h (Ptr a) = Some h1"
    by (simp add: Peer_UpdateType_def h1_def)
  have push: "pushToEnd (Ptr a) b h1 = (r, b', h')"
    using assms(1,2,4) f by (simp add: SetPeerAlive_def GetPeer_eq q up)
  note fr = UpdateType_frame [OF up] and el = UpdateType_elems [OF up]
  have wf1: "well_formed b h1" using assms(1) by (simp add: el)
  have mem1: "Peer_Id h1 (Ptr a) \<in> Peer_Id h1 ` set (occupants b h1)"
    using fm(2) by (simp add: fr el q)
  note p = pushToEnd_found [OF wf1 assms(2) mem1 push]
  show "r = Returns None" by (rule p(1))
  have "occupants b' h' =
             takeWhile (\<lambda>q. Peer_Id h q \<noteq> Some ident) ?xs @
             tl (dropWhile (\<lambda>q. Peer_Id h q \<noteq> Some ident) ?xs) @ [Ptr a]"
    using p(2) by (simp add: fr el ida)
  moreover have "objs h' = (objs h)(a := (objs h a)\<lparr>freshness := upd (objs h a)\<rparr>)"
    using p(5) by (simp add: h1_def)
  ultimately show "\<exists>a. find (\<lambda>q. Peer_Id h q = Some ident) ?xs = Some (Ptr a) \<and>
           occupants b' h' =
             takeWhile (\<lambda>q. Peer_Id h q \<noteq> Some ident) ?xs @
             tl (dropWhile (\<lambda>q. Peer_Id h q \<noteq> Some ident) ?xs) @ [Ptr a] \<and>
           objs h' = (objs h)(a := (objs h a)\<lparr>freshness := upd (objs h a)\<rparr>)"
    using f q by blast
  show "well_formed b' h'" by (rule p(3))
  show "\<not> peersAccess b'" by (rule p(4))
  show "len (peers b') = len (peers b)" by (rule p(6))
  have same: "objs h' = objs h1" by (rule p(5))
  show "Peer_Id h' = Peer_Id h"
    using fr(2) same_objs(1) [OF same] by simp
  show "Peer_IP h' = Peer_IP h"
    using fr(3) same_objs(2) [OF same] by simp
qed

lemma OldestPeer_hd:
  assumes "slice_ok h (peers b)" and "0 < len (peers b)"
  shows "OldestPeer b h = hd (occupants b h)"
proof -
  have "off (peers b) < length (arrays h ! arr (peers b))"
    using assms by (simp add: slice_ok_def)
  then show ?thesis
    using assms(2) by (simp add: OldestPeer_def slice_index_def slice_elems_def hd_drop_conv_nth)
qed

section \<open>What every call keeps\<close>

lemma AddPeer_len:
  assumes "AddPeer p b h = (r, b', h')"
  shows "len (peers b') = len (peers b) \<or>
         (r = Returns None \<and> len (peers b) < maxBucketSize \<and> len (peers b') = Suc (len (peers b)))"
proof (cases "p = nil \<or> peersAccess b")
  case True
  with assms show ?thesis by (auto simp: AddPeer_def Lock_def split: if_splits)
next
  case False
  then have L: "Lock b = Some (b\<lparr>peersAccess := True\<rparr>)" by (simp add: Lock_def)
  show ?thesis
  proof (cases "AddPeer_scan h p (slice_elems h (peers b)) 0")
    case (Inl out)
    with assms False L show ?thesis
      by (cases out) (auto simp: AddPeer_def Unlock_def)
  next
    case (Inr n)
    with assms False L show ?thesis
      by (auto simp: AddPeer_def Unlock_def split: if_splits prod.splits dest: go_append_len)
  qed
qed

text \<open>What a call can do to the collection, whatever its outcome: nothing, or the
  appends of the source.\<close>

lemma AddPeer_shape:
  assumes "AddPeer p b h = (r, b', h')"
  shows "(peers b' = peers b \<and> h' = h) \<or> go_append (peers b) [p] h = (peers b', h')"
proof (cases "p = nil \<or> peersAccess b")
  case True
  with assms show ?thesis by (auto simp: AddPeer_def Lock_def split: if_splits)
next
  case False
  then have L: "Lock b = Some (b\<lparr>peersAccess := True\<rparr>)" by (simp add: Lock_def)
  show ?thesis
  proof (cases "AddPeer_scan h p (slice_elems h (peers b)) 0")
    case (Inl out)
    with assms False L show ?thesis
      by (cases out) (auto simp: AddPeer_def Unlock_def)
  next
    case (Inr n)
    with assms False L show ?thesis
      by (auto simp: AddPeer_def Unlock_def split: if_splits prod.splits)
  qed
qed

lemma AddPeer_step:
  assumes "well_formed b h" and "\<not> peersAccess b" and "AddPeer p b h = (r, b', h')"
  shows "\<exists>e. r = Returns e" and "well_formed b' h'" and "\<not> peersAccess b'"
    and "unique_ids b h \<Longrightarrow> unique_ids b' h'"
    and "per_address_bounded b h \<Longrightarrow> per_address_bounded b' h'"
proof -
  from assms have "(\<exists>e. r = Returns e) \<and> well_formed b' h' \<and> \<not> peersAccess b' \<and>
      (unique_ids b h \<longrightarrow> unique_ids b' h') \<and>
      (per_address_bounded b h \<longrightarrow> per_address_bounded b' h')"
  proof (cases rule: AddPeer_cases)
    case (rejected e)
    with assms(1,2) show ?thesis by simp
  next
    case (admitted a)
    have u: "unique_ids b' h'" if "unique_ids b h"
      using that admitted(3,6) by (simp add: unique_ids_def same_objs(1) [OF admitted(9)] admitted(1))
    have "length (on_address h x (occupants b h @ [Ptr a])) \<le> maxPeersPerIP"
      if pa: "per_address_bounded b h" for x
    proof (cases "IP_Equal (peer_ip (objs h a)) x")
      case True
      have "on_address h x (occupants b h) = on_address h (peer_ip (objs h a)) (occupants b h)"
        by (rule on_address_cong) (rule IP_Equal_sym [OF True])
      with admitted(5) True show ?thesis
        by (simp add: on_address_def Peer_IP_Ptr)
    next
      case False
      with pa show ?thesis
        by (simp add: on_address_def Peer_IP_Ptr per_address_bounded_def)
    qed
    then have p: "per_address_bounded b' h'" if "per_address_bounded b h"
      using that admitted(6) by (simp add: per_address_bounded_def on_address_same_objs [OF admitted(9)])
    from admitted(2,7,8) u p show ?thesis by simp
  qed
  then show "\<exists>e. r = Returns e" and "well_formed b' h'" and "\<not> peersAccess b'"
    and "unique_ids b h \<Longrightarrow> unique_ids b' h'"
    and "per_address_bounded b h \<Longrightarrow> per_address_bounded b' h'"
    by simp_all
qed

lemma RemovePeer_step:
  assumes "well_formed b h" and "\<not> peersAccess b" and "RemovePeer p b h = (r, b', h')"
  shows "well_formed b' h'" and "(\<exists>e. r = Returns e) \<Longrightarrow> \<not> peersAccess b'"
    and "len (peers b') \<le> len (peers b)"
    and "unique_ids b h \<Longrightarrow> unique_ids b' h'"
    and "per_address_bounded b h \<Longrightarrow> per_address_bounded b' h'"
proof -
  let ?N = "\<lambda>q. Peer_Id h q \<noteq> Peer_Id h p"
  consider (null) "p = nil"
    | (missing) a where "p = Ptr a" and "Peer_Id h p \<notin> Peer_Id h ` set (occupants b h)"
    | (found) a where "p = Ptr a" and "Peer_Id h p \<in> Peer_Id h ` set (occupants b h)"
    by (cases p) auto
  then have "well_formed b' h' \<and> ((\<exists>e. r = Returns e) \<longrightarrow> \<not> peersAccess b') \<and>
      len (peers b') \<le> len (peers b) \<and>
      (unique_ids b h \<longrightarrow> unique_ids b' h') \<and>
      (per_address_bounded b h \<longrightarrow> per_address_bounded b' h')"
  proof cases
    case null
    with assms(3) RemovePeer_nil [OF assms(1,2)]
    have "peers b' = peers b" and "h' = h" and "(\<exists>e. r = Returns e) \<longrightarrow> b' = b"
      by (auto split: if_splits)
    with assms(1,2) show ?thesis
      by (auto simp: well_formed_def unique_ids_def per_address_bounded_def)
  next
    case (missing a)
    with assms RemovePeer_missing [OF assms(1,2), of a] show ?thesis by simp
  next
    case (found a)
    from assms(3) found have rm: "RemovePeer (Ptr a) b h = (r, b', h')"
      and mem: "Peer_Id h (Ptr a) \<in> Peer_Id h ` set (occupants b h)" by simp_all
    note f = RemovePeer_found [OF assms(1,2) mem rm]
    have "\<exists>q\<in>set (occupants b h). \<not> ?N q" using found(2) by (auto simp: image_iff)
    then obtain ys q zs where sp: "occupants b h = ys @ q # zs"
      and tk: "takeWhile (\<lambda>q. \<not> \<not> ?N q) (occupants b h) = ys"
      and dr: "tl (dropWhile (\<lambda>q. \<not> \<not> ?N q) (occupants b h)) = zs"
      by (rule first_match_split [where P = "\<lambda>q. \<not> ?N q"])
    have el: "occupants b' h' = ys @ zs"
      using f(2) tk dr by (simp add: found(1))
    have u: "unique_ids b' h'" if "unique_ids b h"
      using that without_first_match(1) [OF sp, of "Peer_Id h"]
      by (simp add: unique_ids_def el same_objs(1) [OF f(5)])
    have pa: "per_address_bounded b' h'" if "per_address_bounded b h"
      unfolding per_address_bounded_def
    proof
      fix x
      have "length (on_address h x (ys @ zs)) \<le> length (on_address h x (occupants b h))"
        unfolding on_address_def by (rule without_first_match(2) [OF sp])
      also have "\<dots> \<le> maxPeersPerIP" using that by (simp add: per_address_bounded_def)
      finally show "length (on_address h' x (occupants b' h')) \<le> maxPeersPerIP"
        by (simp add: el on_address_same_objs [OF f(5)])
    qed
    from f(3,4,6) u pa show ?thesis by simp
  qed
  then show "well_formed b' h'" and "(\<exists>e. r = Returns e) \<Longrightarrow> \<not> peersAccess b'"
    and "len (peers b') \<le> len (peers b)"
    and "unique_ids b h \<Longrightarrow> unique_ids b' h'"
    and "per_address_bounded b h \<Longrightarrow> per_address_bounded b' h'"
    by simp_all
qed

lemma SetPeerAlive_step:
  assumes "well_formed b h" and "\<not> peersAccess b" and "SetPeerAlive upd ident b h = (r, b', h')"
  shows "\<exists>e. r = Returns e" and "well_formed b' h'" and "\<not> peersAccess b'"
    and "len (peers b') = len (peers b)"
    and "unique_ids b h \<Longrightarrow> unique_ids b' h'"
    and "per_address_bounded b h \<Longrightarrow> per_address_bounded b' h'"
proof -
  let ?N = "\<lambda>q. Peer_Id h q \<noteq> Some ident"
  have "(\<exists>e. r = Returns e) \<and> well_formed b' h' \<and> \<not> peersAccess b' \<and>
      len (peers b') = len (peers b) \<and>
      (unique_ids b h \<longrightarrow> unique_ids b' h') \<and>
      (per_address_bounded b h \<longrightarrow> per_address_bounded b' h')"
  proof (cases "Some ident \<in> Peer_Id h ` set (occupants b h)")
    case False
    from SetPeerAlive_missing [OF assms(1,2) False, of upd] assms(3)
    have "r = Returns (Some PeerNotFound)" and "b' = b" and "h' = h" by simp_all
    with assms(1,2) show ?thesis by simp
  next
    case True
    note f = SetPeerAlive_found [OF assms(1,2) True assms(3)]
    from f(2) obtain a where fnd: "find (\<lambda>q. Peer_Id h q = Some ident) (occupants b h) = Some (Ptr a)"
      and el: "occupants b' h' =
             takeWhile ?N (occupants b h) @ tl (dropWhile ?N (occupants b h)) @ [Ptr a]"
      by blast
    note fm = find_first_match [OF fnd]
    define ys where "ys = takeWhile ?N (occupants b h)"
    define zs where "zs = tl (dropWhile ?N (occupants b h))"
    have "occupants b h = takeWhile ?N (occupants b h) @ dropWhile ?N (occupants b h)"
      by simp
    also have "dropWhile ?N (occupants b h) = Ptr a # zs"
      using fm(3) by (simp add: zs_def)
    finally have sp: "occupants b h = ys @ Ptr a # zs" by (simp add: ys_def)
    have el': "occupants b' h' = ys @ zs @ [Ptr a]"
      using el by (simp add: ys_def zs_def)
    have u: "unique_ids b' h'" if "unique_ids b h"
      using that without_first_match(3) [OF sp, of "Peer_Id h"]
      by (simp add: unique_ids_def el' f(6))
    have oa: "on_address h' = on_address h"
      by (intro ext) (simp add: on_address_def f(7))
    have pa: "per_address_bounded b' h'" if "per_address_bounded b h"
      unfolding per_address_bounded_def
    proof
      fix x
      have "length (on_address h x (ys @ zs @ [Ptr a])) = length (on_address h x (occupants b h))"
        unfolding on_address_def by (rule without_first_match(4) [OF sp])
      also have "\<dots> \<le> maxPeersPerIP" using that by (simp add: per_address_bounded_def)
      finally show "length (on_address h' x (occupants b' h')) \<le> maxPeersPerIP"
        by (simp add: el' oa)
    qed
    from f(1,3,4,5) u pa show ?thesis by simp
  qed
  then show "\<exists>e. r = Returns e" and "well_formed b' h'" and "\<not> peersAccess b'"
    and "len (peers b') = len (peers b)"
    and "unique_ids b h \<Longrightarrow> unique_ids b' h'"
    and "per_address_bounded b h \<Longrightarrow> per_address_bounded b' h'"
    by simp_all
qed

text \<open>One step of a run, from a well-formed state with the mutex free: the state stays
  well-formed, a call that returns leaves the mutex free, and the three invariants of
  the data model are kept.\<close>

lemma perform_step:
  assumes "well_formed b h" and "\<not> peersAccess b" and "perform c b h = (r, b', h')"
  shows "well_formed b' h'" and "(\<exists>e. r = Returns e) \<Longrightarrow> \<not> peersAccess b'"
    and "len (peers b) \<le> maxBucketSize \<Longrightarrow> len (peers b') \<le> maxBucketSize"
    and "unique_ids b h \<Longrightarrow> unique_ids b' h'"
    and "per_address_bounded b h \<Longrightarrow> per_address_bounded b' h'"
proof -
  have "well_formed b' h' \<and> ((\<exists>e. r = Returns e) \<longrightarrow> \<not> peersAccess b') \<and>
      (len (peers b) \<le> maxBucketSize \<longrightarrow> len (peers b') \<le> maxBucketSize) \<and>
      (unique_ids b h \<longrightarrow> unique_ids b' h') \<and>
      (per_address_bounded b h \<longrightarrow> per_address_bounded b' h')"
  proof (cases c)
    case (AddPeerCall p)
    with assms(3) have a: "AddPeer p b h = (r, b', h')" by (simp add: perform_def)
    from AddPeer_step [OF assms(1,2) a] AddPeer_len [OF a] show ?thesis by auto
  next
    case (RemovePeerCall p)
    with assms(3) have a: "RemovePeer p b h = (r, b', h')" by (simp add: perform_def)
    from RemovePeer_step [OF assms(1,2) a] show ?thesis by auto
  next
    case (SetPeerAliveCall upd ident)
    with assms(3) have a: "SetPeerAlive upd ident b h = (r, b', h')" by (simp add: perform_def)
    from SetPeerAlive_step [OF assms(1,2) a] show ?thesis by auto
  qed
  then show "well_formed b' h'" and "(\<exists>e. r = Returns e) \<Longrightarrow> \<not> peersAccess b'"
    and "len (peers b) \<le> maxBucketSize \<Longrightarrow> len (peers b') \<le> maxBucketSize"
    and "unique_ids b h \<Longrightarrow> unique_ids b' h'"
    and "per_address_bounded b h \<Longrightarrow> per_address_bounded b' h'"
    by simp_all
qed

lemma run_invariants:
  assumes "well_formed b h" and "\<not> peersAccess b" and "run cs b h = (b', h')"
  shows "well_formed b' h'"
    and "len (peers b) \<le> maxBucketSize \<Longrightarrow> len (peers b') \<le> maxBucketSize"
    and "unique_ids b h \<Longrightarrow> unique_ids b' h'"
    and "per_address_bounded b h \<Longrightarrow> per_address_bounded b' h'"
proof -
  from assms have "well_formed b' h' \<and>
      (len (peers b) \<le> maxBucketSize \<longrightarrow> len (peers b') \<le> maxBucketSize) \<and>
      (unique_ids b h \<longrightarrow> unique_ids b' h') \<and>
      (per_address_bounded b h \<longrightarrow> per_address_bounded b' h')"
  proof (induction cs arbitrary: b h)
    case Nil
    then show ?case by simp
  next
    case (Cons c cs)
    obtain r b1 h1 where p: "perform c b h = (r, b1, h1)" by (cases "perform c b h") auto
    note st = perform_step [OF Cons.prems(1,2) p]
    show ?case
    proof (cases r)
      case (Returns e)
      with Cons.prems(3) p have "run cs b1 h1 = (b', h')" by simp
      from Cons.IH [OF st(1) _ this] st Returns show ?thesis by simp
    next
      case (Panics m)
      with Cons.prems(3) p have "b' = b1" and "h' = h1" by simp_all
      with st show ?thesis by simp
    next
      case Blocks
      with Cons.prems(3) p have "b' = b1" and "h' = h1" by simp_all
      with st show ?thesis by simp
    qed
  qed
  then show "well_formed b' h'"
    and "len (peers b) \<le> maxBucketSize \<Longrightarrow> len (peers b') \<le> maxBucketSize"
    and "unique_ids b h \<Longrightarrow> unique_ids b' h'"
    and "per_address_bounded b h \<Longrightarrow> per_address_bounded b' h'"
    by simp_all
qed

lemma run_AddPeer_len:
  assumes "len (peers b) \<le> maxBucketSize" and "run (map AddPeerCall ps) b h = (b', h')"
  shows "len (peers b') \<le> maxBucketSize"
  using assms
proof (induction ps arbitrary: b h)
  case Nil
  then show ?case by simp
next
  case (Cons p ps)
  obtain r b1 h1 where a: "AddPeer p b h = (r, b1, h1)" by (cases "AddPeer p b h") auto
  from AddPeer_len [OF a] Cons.prems(1) have l: "len (peers b1) \<le> maxBucketSize" by auto
  show ?case
  proof (cases r)
    case (Returns e)
    with Cons.prems(2) a have "run (map AddPeerCall ps) b1 h1 = (b', h')"
      by (simp add: perform_def)
    from Cons.IH [OF l this] show ?thesis .
  next
    case (Panics m)
    with Cons.prems(2) a l show ?thesis by (simp add: perform_def)
  next
    case Blocks
    with Cons.prems(2) a l show ?thesis by (simp add: perform_def)
  qed
qed

lemma AddPeer_frame:
  assumes "slice_ok h (peers b)" and "slice_ok h t" and "arr t \<noteq> arr (peers b)"
    and "AddPeer p b h = (r, b', h')"
  shows "slice_elems h' t = slice_elems h t \<and> slice_ok h' t \<and> arr t \<noteq> arr (peers b') \<and>
         slice_ok h' (peers b')"
  using AddPeer_shape [OF assms(4)]
proof
  assume "peers b' = peers b \<and> h' = h"
  with assms show ?thesis by simp
next
  assume app: "go_append (peers b) [p] h = (peers b', h')"
  from go_append_frame [OF assms(1) app assms(2,3)] go_append_ok(1) [OF assms(1) app]
  show ?thesis by auto
qed

lemma RemovePeer_frame:
  assumes "slice_ok h (peers b)" and "slice_ok h t" and "arr t \<noteq> arr (peers b)"
    and "RemovePeer p b h = (r, b', h')"
  shows "slice_elems h' t = slice_elems h t \<and> slice_ok h' t \<and> arr t \<noteq> arr (peers b') \<and>
         slice_ok h' (peers b')"
proof (cases "peersAccess b")
  case True
  with assms show ?thesis by (simp add: RemovePeer_def Lock_def)
next
  case False
  then have L: "Lock b = Some (b\<lparr>peersAccess := True\<rparr>)" by (simp add: Lock_def)
  show ?thesis
  proof (cases "index_scan (\<lambda>peertr. Peer_Equal h peertr p) (slice_elems h (peers b)) 0")
    case (Returns found)
    show ?thesis
    proof (cases found)
      case None
      with Returns assms L show ?thesis by (auto simp: RemovePeer_def Unlock_def)
    next
      case (Some i)
      from index_scan_bound [OF Returns [unfolded Some]] have i: "i < len (peers b)"
        by (simp add: slice_elems_length [OF assms(1)])
      obtain s where app: "go_append (reslice (peers b) 0 i)
                       (slice_elems h (reslice (peers b) (i + 1) (len (peers b)))) h = (s, h')"
        and b': "peers b' = s"
        using Returns Some assms(4) L
        by (auto simp: RemovePeer_def Unlock_def split: prod.splits)
      from removal_frame [OF assms(1) i app assms(2,3)] b' show ?thesis by simp
    qed
  next
    case (Panics m)
    with assms L show ?thesis by (auto simp: RemovePeer_def)
  next
    case Blocks
    with assms L show ?thesis by (auto simp: RemovePeer_def)
  qed
qed

lemma pushToEnd_frame:
  assumes "slice_ok h (peers b)" and "slice_ok h t" and "arr t \<noteq> arr (peers b)"
    and "pushToEnd p b h = (r, b', h')"
  shows "slice_elems h' t = slice_elems h t \<and> slice_ok h' t \<and> arr t \<noteq> arr (peers b') \<and>
         slice_ok h' (peers b')"
proof (cases "peersAccess b")
  case True
  with assms show ?thesis by (simp add: pushToEnd_def Lock_def)
next
  case False
  then have L: "Lock b = Some (b\<lparr>peersAccess := True\<rparr>)" by (simp add: Lock_def)
  show ?thesis
  proof (cases "index_scan (\<lambda>currPeer. Peer_Equal h p currPeer) (slice_elems h (peers b)) 0")
    case (Returns found)
    show ?thesis
    proof (cases found)
      case None
      with Returns assms L show ?thesis by (auto simp: pushToEnd_def Unlock_def)
    next
      case (Some i)
      from index_scan_bound [OF Returns [unfolded Some]] have i: "i < len (peers b)"
        by (simp add: slice_elems_length [OF assms(1)])
      obtain s1 h1 s2 where app1: "go_append (reslice (peers b) 0 i)
                       (slice_elems h (reslice (peers b) (i + 1) (len (peers b)))) h = (s1, h1)"
        and app2: "go_append s1 [p] h1 = (s2, h')"
        and b': "peers b' = s2"
        using Returns Some assms(4) L
        by (auto simp: pushToEnd_def Unlock_def split: prod.splits)
      note f1 = removal_frame [OF assms(1) i app1 assms(2,3)]
      from f1(3) have ne: "arr t \<noteq> arr s1" .
      from go_append_frame [OF f1(4) app2 f1(2) ne] go_append_ok(1) [OF f1(4) app2] f1(1) b'
      show ?thesis by auto
    qed
  next
    case (Panics m)
    with assms L show ?thesis by (auto simp: pushToEnd_def)
  next
    case Blocks
    with assms L show ?thesis by (auto simp: pushToEnd_def)
  qed
qed

lemma SetPeerAlive_frame:
  assumes "slice_ok h (peers b)" and "slice_ok h t" and "arr t \<noteq> arr (peers b)"
    and "SetPeerAlive upd ident b h = (r, b', h')"
  shows "slice_elems h' t = slice_elems h t \<and> slice_ok h' t \<and> arr t \<noteq> arr (peers b') \<and>
         slice_ok h' (peers b')"
proof -
  obtain g b1 where g: "GetPeer ident b h = (g, b1)" by (cases "GetPeer ident b h") auto
  note pb = GetPeer_peers [OF g]
  show ?thesis
  proof (cases "\<exists>inPeer h1. g = Returns (inPeer, None) \<and> Peer_UpdateType upd h inPeer = Some h1")
    case True
    then obtain inPeer h1 where gr: "g = Returns (inPeer, None)"
      and up: "Peer_UpdateType upd h inPeer = Some h1" by blast
    from assms(4) g gr up have push: "pushToEnd inPeer b1 h1 = (r, b', h')"
      by (simp add: SetPeerAlive_def)
    note el = UpdateType_elems [OF up]
    from pushToEnd_frame [of h1 b1 t inPeer r b' h'] push assms(1,2,3) pb
    show ?thesis by (simp add: el)
  next
    case False
    with assms(4) g have "peers b' = peers b1 \<and> h' = h"
      by (auto simp: SetPeerAlive_def split: outcome.splits option.splits)
    with assms pb show ?thesis by simp
  qed
qed

lemma perform_frame:
  assumes "slice_ok h (peers b)" and "slice_ok h t" and "arr t \<noteq> arr (peers b)"
    and "perform c b h = (r, b', h')"
  shows "slice_elems h' t = slice_elems h t \<and> slice_ok h' t \<and> arr t \<noteq> arr (peers b') \<and>
         slice_ok h' (peers b')"
proof (cases c)
  case (AddPeerCall p)
  with assms(4) AddPeer_frame [OF assms(1,2,3)] show ?thesis by (simp add: perform_def)
next
  case (RemovePeerCall p)
  with assms(4) RemovePeer_frame [OF assms(1,2,3)] show ?thesis by (simp add: perform_def)
next
  case (SetPeerAliveCall upd ident)
  with assms(4) SetPeerAlive_frame [OF assms(1,2,3)] show ?thesis by (simp add: perform_def)
qed

lemma run_frame:
  assumes "slice_ok h (peers b)" and "slice_ok h t" and "arr t \<noteq> arr (peers b)"
    and "run cs b h = (b', h')"
  shows "slice_elems h' t = slice_elems h t"
  using assms
proof (induction cs arbitrary: b h)
  case Nil
  then show ?case by simp
next
  case (Cons c cs)
  obtain r b1 h1 where p: "perform c b h = (r, b1, h1)" by (cases "perform c b h") auto
  from perform_frame [OF Cons.prems(1,2,3) p]
  have el: "slice_elems h1 t = slice_elems h t" and t1: "slice_ok h1 t"
    and ne: "arr t \<noteq> arr (peers b1)" and ok1: "slice_ok h1 (peers b1)" by simp_all
  show ?case
  proof (cases r)
    case (Returns e)
    with Cons.prems(4) p have "run cs b1 h1 = (b', h')" by simp
    from Cons.IH [OF ok1 t1 ne this] el show ?thesis by simp
  next
    case (Panics m)
    with Cons.prems(4) p el show ?thesis by simp
  next
    case Blocks
    with Cons.prems(4) p el show ?thesis by simp
  qed
qed

section \<open>Ranking by distance\<close>

lemma sort_insert_keyed:
  fixes k :: "'a \<Rightarrow> 'k::linorder"
  assumes "\<And>a b. a \<in> set (x # ys) \<Longrightarrow> b \<in> set (x # ys) \<Longrightarrow> lessf a b = Some (k a < k b)"
    and "sorted (map k ys)"
  shows "\<exists>zs. sort_insert lessf x ys = Some zs \<and> mset zs = mset (x # ys) \<and> sorted (map k zs)"
  using assms
proof (induction ys)
  case Nil
  then show ?case by simp
next
  case (Cons y ys)
  have xy: "lessf x y = Some (k x < k y)" by (rule Cons.prems(1)) simp_all
  show ?case
  proof (cases "k x < k y")
    case True
    with xy Cons.prems(2) show ?thesis by (auto simp: less_imp_le order.trans [OF less_imp_le])
  next
    case False
    have "\<exists>zs. sort_insert lessf x ys = Some zs \<and> mset zs = mset (x # ys) \<and> sorted (map k zs)"
    proof (rule Cons.IH)
      fix a b assume "a \<in> set (x # ys)" and "b \<in> set (x # ys)"
      then show "lessf a b = Some (k a < k b)" by (intro Cons.prems(1)) auto
    next
      from Cons.prems(2) show "sorted (map k ys)" by simp
    qed
    then obtain zs where zs: "sort_insert lessf x ys = Some zs" and m: "mset zs = mset (x # ys)"
      and s: "sorted (map k zs)" by blast
    from m have "set zs = set (x # ys)" by (metis set_mset_mset)
    with False Cons.prems(2) have "\<forall>z\<in>set zs. k y \<le> k z" by auto
    with xy False zs m s show ?thesis by simp
  qed
qed

lemma sort_Slice_keyed:
  fixes k :: "'a \<Rightarrow> 'k::linorder"
  assumes "\<And>a b. a \<in> set xs \<Longrightarrow> b \<in> set xs \<Longrightarrow> lessf a b = Some (k a < k b)"
  shows "\<exists>zs. sort_Slice lessf xs = Some zs \<and> mset zs = mset xs \<and> sorted (map k zs)"
  using assms
proof (induction xs)
  case Nil
  then show ?case by simp
next
  case (Cons x xs)
  have "\<exists>ys. sort_Slice lessf xs = Some ys \<and> mset ys = mset xs \<and> sorted (map k ys)"
    by (rule Cons.IH) (simp add: Cons.prems)
  then obtain ys where ys: "sort_Slice lessf xs = Some ys" and m: "mset ys = mset xs"
    and s: "sorted (map k ys)" by blast
  from m have st: "set ys = set xs" by (metis set_mset_mset)
  have "\<exists>zs. sort_insert lessf x ys = Some zs \<and> mset zs = mset (x # ys) \<and> sorted (map k zs)"
  proof (rule sort_insert_keyed [OF _ s])
    fix a b assume "a \<in> set (x # ys)" and "b \<in> set (x # ys)"
    then show "lessf a b = Some (k a < k b)" by (intro Cons.prems) (auto simp: st)
  qed
  with ys m show ?case by auto
qed

lemma active_Ptr: "active h (Ptr a) = Some (ipVerified (objs h a) \<and> isAlive (objs h a))"
  by (simp add: active_def Peer_IsIpVerified_def Peer_IsAlive_def deref_def)

lemma active_same_objs:
  assumes "objs h' = objs h"
  shows "active h' = active h"
  by (intro ext) (simp add: active_def same_objs(3,4) [OF assms] split: option.splits)

lemma active_True:
  "active h q = Some True \<longleftrightarrow> Peer_IsIpVerified h q = Some True \<and> Peer_IsAlive h q = Some True"
  by (cases q) (auto simp: active_def Peer_IsIpVerified_def Peer_IsAlive_def deref_def)

lemma Filter_scan_eq:
  assumes "nil \<notin> set xs"
  shows "Filter_scan (active h) xs = Some (filter (\<lambda>q. active h q = Some True) xs)"
  using assms
proof (induction xs)
  case Nil
  then show ?case by simp
next
  case (Cons q xs)
  then obtain a where "q = Ptr a" by (cases q) auto
  with Cons show ?case by (simp add: active_Ptr)
qed

lemma Filter_eq:
  assumes "nil \<notin> set (slice_elems h s)"
  shows "Filter s (active h) h =
           Some (\<lparr>arr = length (arrays h), off = 0,
                   len = length (filter (\<lambda>q. active h q = Some True) (slice_elems h s)),
                   cap = length (filter (\<lambda>q. active h q = Some True) (slice_elems h s))\<rparr>,
                 h\<lparr>arrays := arrays h @ [filter (\<lambda>q. active h q = Some True) (slice_elems h s)]\<rparr>)"
  by (simp add: Filter_def Filter_scan_eq [OF assms])

lemma closer_Ptr:
  "closer h to (Ptr a) (Ptr c) =
     Some (Xor (peer_id (objs h a)) to < Xor (peer_id (objs h c)) to)"
  by (simp add: closer_def Peer_Id_Ptr Compare_def)

lemma Peer_distance_key:
  assumes "nil \<notin> set zs"
  shows "map (Peer_distance h to) zs =
           map Some (map (\<lambda>q. case q of nil \<Rightarrow> 0 | Ptr a \<Rightarrow> Xor (peer_id (objs h a)) to) zs)"
  using assms
proof (induction zs)
  case Nil
  then show ?case by simp
next
  case (Cons q zs)
  then obtain a where "q = Ptr a" by (cases q) auto
  with Cons show ?case by (simp add: Peer_distance_def Peer_Id_Ptr)
qed

lemma GetClosestPeers_empty:
  assumes "len (peers b) = 0"
  shows "\<exists>s h'. GetClosestPeers to mx b h = (Returns s, h') \<and> slice_elems h' s = [] \<and>
           objs h' = objs h"
  using assms by (simp add: GetClosestPeers_def make_slice_def slice_elems_def)

lemma GetClosestPeers_sorted:
  assumes w: "well_formed b h" and mx: "0 \<le> mx" and ne: "0 < len (peers b)"
  shows "\<exists>s h' zs. GetClosestPeers to mx b h = (Returns s, h') \<and>
           mset zs = mset (filter (\<lambda>q. active h q = Some True) (occupants b h)) \<and>
           sorted (map (\<lambda>q. case q of nil \<Rightarrow> 0 | Ptr a \<Rightarrow> Xor (peer_id (objs h a)) to) zs) \<and>
           slice_elems h' s = take (nat mx) zs \<and> objs h' = objs h"
proof -
  let ?k = "\<lambda>q. case q of nil \<Rightarrow> 0 | Ptr a \<Rightarrow> Xor (peer_id (objs h a)) to"
  let ?ys = "filter (\<lambda>q. active h q = Some True) (occupants b h)"
  have ok: "slice_ok h (peers b)" and nn: "nil \<notin> set (occupants b h)"
    using w by (simp_all add: well_formed_def)
  obtain cpy h1 where P: "Peers b h = (cpy, h1)" by (cases "Peers b h") auto
  note ps = Peers_snapshot [OF ok P]
  have act: "active h1 = active h" by (rule active_same_objs [OF ps(6)])
  define peerCpy where
    "peerCpy = \<lparr>arr = length (arrays h1), off = 0, len = length ?ys, cap = length ?ys\<rparr>"
  define h2 where "h2 = h1\<lparr>arrays := arrays h1 @ [?ys]\<rparr>"
  have F: "Filter cpy (active h1) h1 = Some (peerCpy, h2)"
    using nn Filter_eq [of h1 cpy] by (simp add: ps(1) act peerCpy_def h2_def)
  have el2: "slice_elems h2 peerCpy = ?ys"
    by (simp add: slice_elems_def peerCpy_def h2_def)
  have ok2: "slice_ok h2 peerCpy"
    by (simp add: slice_ok_def peerCpy_def h2_def)
  have o2: "objs h2 = objs h" by (simp add: h2_def ps(6))
  have cl: "closer h2 to p q = Some (?k p < ?k q)" if "p \<in> set ?ys" and "q \<in> set ?ys" for p q
  proof -
    from that nn have "p \<noteq> nil" and "q \<noteq> nil" by auto
    then obtain a c where "p = Ptr a" and "q = Ptr c"
      by (cases p; cases q) auto
    then show ?thesis by (simp add: closer_Ptr o2)
  qed
  from sort_Slice_keyed [of ?ys "closer h2 to" ?k, OF cl]
  obtain zs where S: "sort_Slice (closer h2 to) ?ys = Some zs" and m: "mset zs = mset ?ys"
    and srt: "sorted (map ?k zs)" by blast
  from m have lz: "length zs = length ?ys" by (metis size_mset)
  then have lz': "length zs = len peerCpy" by (simp add: peerCpy_def)
  define h3 where "h3 = slice_store peerCpy zs h2"
  note st = slice_store_elems [OF ok2 lz', folded h3_def]
  have o3: "objs h3 = objs h" using st(2) o2 by simp
  show ?thesis
  proof (cases "int (len peerCpy) > mx")
    case True
    then have G: "GetClosestPeers to mx b h = (Returns (reslice peerCpy 0 (nat mx)), h3)"
      using ne mx by (simp add: GetClosestPeers_def P F el2 S h3_def Let_def)
    from True mx have "nat mx \<le> len peerCpy" by simp
    then have "slice_elems h3 (reslice peerCpy 0 (nat mx)) = take (nat mx) zs"
      by (simp add: reslice_elems st(1))
    with G m srt o3 show ?thesis by blast
  next
    case False
    then have G: "GetClosestPeers to mx b h = (Returns peerCpy, h3)"
      using ne by (simp add: GetClosestPeers_def P F el2 S h3_def Let_def)
    from False have "length zs \<le> nat mx" by (simp add: lz')
    then have "slice_elems h3 peerCpy = take (nat mx) zs" by (simp add: st(1))
    with G m srt o3 show ?thesis by blast
  qed
qed

section \<open>The example states\<close>

lemma example_occupants: "occupants (example_bucket n) (example_heap n) = map Ptr [0..<n]"
  by (simp add: example_bucket_def example_heap_def slice_elems_def)

lemma example_well_formed: "well_formed (example_bucket n) (example_heap n)"
  by (auto simp: well_formed_def example_occupants)
     (simp add: example_bucket_def example_heap_def slice_ok_def)

lemma example_unlocked: "\<not> peersAccess (example_bucket n)"
  by (simp add: example_bucket_def)

lemma example_ids:
  "Peer_Id (example_heap n) (Ptr a) = Some (of_nat a)"
  by (simp add: Peer_Id_Ptr example_heap_def example_peer_def)

lemma example_id_inj:
  assumes "a < 256" and "c < 256" and "(of_nat a :: UInt128) = of_nat c"
  shows "a = c"
proof -
  have le: "(2::nat) ^ 8 \<le> 2 ^ LENGTH(128)"
    by (rule power_increasing) simp_all
  have e: "(256::nat) = 2 ^ 8" by simp
  have small: "k < 2 ^ LENGTH(128)" if "k < 256" for k :: nat
    using that le unfolding e by (rule less_le_trans)
  have "unat (of_nat a :: UInt128) = a"
    by (rule of_nat_inverse [OF refl small [OF assms(1)]])
  moreover have "unat (of_nat c :: UInt128) = c"
    by (rule of_nat_inverse [OF refl small [OF assms(2)]])
  ultimately show ?thesis using assms(3) by metis
qed

lemma example_fresh:
  assumes "n \<le> a" and "a < 256"
  shows "Peer_Id (example_heap n) (Ptr a) \<notin>
           Peer_Id (example_heap n) ` set (occupants (example_bucket n) (example_heap n))"
proof
  assume "Peer_Id (example_heap n) (Ptr a) \<in>
           Peer_Id (example_heap n) ` set (occupants (example_bucket n) (example_heap n))"
  then obtain c where "c < n" and "(of_nat a :: UInt128) = of_nat c"
    by (auto simp: example_occupants example_ids)
  with assms example_id_inj [of a c] show False by simp
qed

lemma example_member:
  assumes "a < n"
  shows "Peer_Id (example_heap n) (Ptr a) \<in>
           Peer_Id (example_heap n) ` set (occupants (example_bucket n) (example_heap n))"
  using assms by (simp add: example_occupants)

lemma example_ip: "Peer_IP (example_heap n) (Ptr a) = Some [10, 0, 0, of_nat (a mod 6)]"
  by (simp add: Peer_IP_Ptr example_heap_def example_peer_def)

lemma example_on_address_0:
  "length (on_address (example_heap 16) [10, 0, 0, 0]
             (occupants (example_bucket 16) (example_heap 16))) = 3"
  "length (on_address (example_heap 13) [10, 0, 0, 0]
             (occupants (example_bucket 13) (example_heap 13))) = 3"
  by (simp_all add: example_occupants)
     (simp_all add: on_address_def example_heap_def Peer_IP_Ptr example_peer_def IP_Equal_def
        upt_rec)

lemma GetRandomPeer_example:
  "fst (GetRandomPeer (Inr r) (example_bucket 3) (example_heap 3)) =
     Returns (Ptr (unat r mod 3), None)"
proof -
  have "unat r mod 3 < 3" by simp
  then have "map Ptr [0..<3] ! (unat r mod 3) = Ptr (unat r mod 3)"
    by (metis add_0 diff_zero length_upt nth_map nth_upt)
  then show ?thesis
    by (simp add: GetRandomPeer_def example_bucket_def example_heap_def Lock_def Unlock_def
        slice_index_def)
qed

lemma thirds:
  "r < 3 \<Longrightarrow> length (filter (\<lambda>n. n mod 3 = r) [0..<3 * k]) = k"
proof (induction k)
  case 0
  then show ?case by simp
next
  case (Suc k)
  have "[0..<3 * Suc k] = [0..<3 * k] @ [3 * k, 3 * k + 1, 3 * k + 2]"
    by (simp add: numeral_3_eq_3)
  moreover have "length (filter (\<lambda>n. n mod 3 = r) [3 * k, 3 * k + 1, 3 * k + 2]) = 1"
    using Suc.prems by (auto simp: mod_Suc)
  ultimately show ?case using Suc by simp
qed

lemma bytes_mod_3:
  "length (filter (\<lambda>n. n mod 3 = 0) [0..<256]) = 86"
  "length (filter (\<lambda>n. n mod 3 = 1) [0..<256]) = 85"
  "length (filter (\<lambda>n. n mod 3 = 2) [0..<256]) = 85"
proof -
  have split: "[0..<256] = [0..<3 * 85] @ [255::nat]"
    by (simp add: upt_Suc_append [symmetric] del: upt_Suc)
  show "length (filter (\<lambda>n. n mod 3 = 0) [0..<256]) = 86"
    unfolding split using thirds [of 0 85] by simp
  show "length (filter (\<lambda>n. n mod 3 = 1) [0..<256]) = 85"
    unfolding split using thirds [of 1 85] by simp
  show "length (filter (\<lambda>n. n mod 3 = 2) [0..<256]) = 85"
    unfolding split using thirds [of 2 85] by simp
qed

section \<open>A new bucket\<close>

text \<open>Claim C1: a newly created bucket is empty: \<^verbatim>\<open>CountPeers\<close> is 0,
  \<^verbatim>\<open>CountRemainingPeers\<close> is 16, \<^verbatim>\<open>IsFull\<close> is false, \<^verbatim>\<open>OldestPeer\<close> is null and
  \<^verbatim>\<open>GetRandomPeer\<close> fails with \<open>EmptyBucket\<close>. The constructor does otherwise:
  \<^verbatim>\<open>make([]*kadTypes.Peer, maxBucketSize)\<close> makes a slice of length 16, so the new
  bucket holds 16 nil pointers; it counts 16 peers and no remaining place, it is full,
  and \<^verbatim>\<open>GetRandomPeer\<close> returns a nil peer and no error for every byte of entropy.
  Only \<^verbatim>\<open>OldestPeer\<close> is null, being the nil pointer of the first slot.\<close>

theorem newKBucket_not_empty:
  "CountPeers (fst (newKBucket h)) = 16 \<and>
   CountRemainingPeers (fst (newKBucket h)) = 0 \<and>
   IsFull (fst (newKBucket h)) \<and>
   occupants (fst (newKBucket h)) (snd (newKBucket h)) = replicate 16 nil \<and>
   OldestPeer (fst (newKBucket h)) (snd (newKBucket h)) = nil \<and>
   GetRandomPeer (Inr r) (fst (newKBucket h)) (snd (newKBucket h)) =
     (Returns (nil, None), fst (newKBucket h))"
proof -
  have "unat r mod 16 < 16" by simp
  then have "replicate 16 nil ! (unat r mod 16) = nil"
    by (rule nth_replicate)
  then show ?thesis
    by (simp add: newKBucket_def make_slice_def CountPeers_def CountRemainingPeers_def
        IsFull_def maxBucketSize_def slice_elems_def OldestPeer_def slice_index_def
        GetRandomPeer_def Lock_def Unlock_def)
qed

section \<open>Capacity\<close>

text \<open>Claim C2, as amended. For every sequence of \<^verbatim>\<open>AddPeer\<close> calls the occupancy never
  exceeds \<open>maxBucketSize\<close>; a call inserts only when the count before the insertion is
  below \<open>maxBucketSize\<close>; and a call made when the occupancy equals \<open>maxBucketSize\<close> (on a
  bucket without nil entries, the mutex free) fails and leaves the bucket and the store
  as they were: with \<open>InvalidArgument\<close> for a nil peer, with \<open>DuplicatePeer\<close> for a peer
  whose identifier an occupant has, and with \<open>BucketFull\<close> otherwise. The claim as stated
  gives \<open>BucketFull\<close> for every call on a full bucket; the scan for a duplicate comes
  first in the source.\<close>

theorem AddPeer_capacity:
  "(len (peers b) \<le> maxBucketSize \<and> run (map AddPeerCall ps) b h = (b', h')
      \<longrightarrow> CountPeers b' \<le> int maxBucketSize) \<and>
   (AddPeer p b h = (r, b1, h1) \<and> len (peers b1) \<noteq> len (peers b)
      \<longrightarrow> r = Returns None \<and> len (peers b) < maxBucketSize \<and>
          len (peers b1) = Suc (len (peers b))) \<and>
   (well_formed b h \<and> \<not> peersAccess b \<and> CountPeers b = int maxBucketSize
      \<longrightarrow> AddPeer p b h =
            (Returns (Some (if p = nil then InvalidArgument
                            else if Peer_Id h p \<in> Peer_Id h ` set (occupants b h)
                            then DuplicatePeer else BucketFull)), b, h))"
proof (intro conjI impI)
  assume "len (peers b) \<le> maxBucketSize \<and> run (map AddPeerCall ps) b h = (b', h')"
  then have "len (peers b') \<le> maxBucketSize" by (auto intro: run_AddPeer_len)
  then show "CountPeers b' \<le> int maxBucketSize" by (simp add: CountPeers_def)
next
  assume a: "AddPeer p b h = (r, b1, h1) \<and> len (peers b1) \<noteq> len (peers b)"
  then have "AddPeer p b h = (r, b1, h1)" by simp
  from AddPeer_len [OF this] a
  show "r = Returns None" and "len (peers b) < maxBucketSize"
    and "len (peers b1) = Suc (len (peers b))" by auto
next
  assume a: "well_formed b h \<and> \<not> peersAccess b \<and> CountPeers b = int maxBucketSize"
  then have w: "well_formed b h" and u: "\<not> peersAccess b" and f: "maxBucketSize \<le> len (peers b)"
    by (simp_all add: CountPeers_def)
  show "AddPeer p b h =
            (Returns (Some (if p = nil then InvalidArgument
                            else if Peer_Id h p \<in> Peer_Id h ` set (occupants b h)
                            then DuplicatePeer else BucketFull)), b, h)"
  proof (cases p)
    case nil
    then show ?thesis by (simp add: AddPeer_nil)
  next
    case (Ptr a)
    show ?thesis
    proof (cases "Peer_Id h p \<in> Peer_Id h ` set (occupants b h)")
      case True
      with AddPeer_duplicate [OF w u, of a] Ptr show ?thesis by simp
    next
      case False
      with AddPeer_full [OF w u _ f, of a] Ptr show ?thesis by simp
    qed
  qed
qed

text \<open>The theorem at the full example bucket (a run of four further calls, and the
  rejection of a peer that is not an occupant) and at the example bucket of three, where
  a call inserts.\<close>

theorem AddPeer_capacity_witness:
  "len (peers (example_bucket 16)) \<le> maxBucketSize \<and>
   CountPeers (fst (run (map AddPeerCall [Ptr 16, Ptr 17, nil, Ptr 3])
                      (example_bucket 16) (example_heap 16))) \<le> int maxBucketSize \<and>
   len (peers (fst (snd (AddPeer (Ptr 7) (example_bucket 3) (example_heap 3))))) \<noteq>
     len (peers (example_bucket 3)) \<and>
   fst (AddPeer (Ptr 7) (example_bucket 3) (example_heap 3)) = Returns None \<and>
   len (peers (example_bucket 3)) < maxBucketSize \<and>
   well_formed (example_bucket 16) (example_heap 16) \<and>
   \<not> peersAccess (example_bucket 16) \<and>
   CountPeers (example_bucket 16) = int maxBucketSize \<and>
   AddPeer (Ptr 16) (example_bucket 16) (example_heap 16) =
     (Returns (Some BucketFull), example_bucket 16, example_heap 16)"
proof -
  let ?A = "AddPeer (Ptr 7) (example_bucket 3) (example_heap 3)"
  have l: "len (peers (example_bucket 16)) \<le> maxBucketSize"
    and c: "CountPeers (example_bucket 16) = int maxBucketSize"
    by (simp_all add: example_bucket_def maxBucketSize_def CountPeers_def)
  have fresh: "Peer_Id (example_heap 16) (Ptr 16) \<notin>
                 Peer_Id (example_heap 16) ` set (occupants (example_bucket 16) (example_heap 16))"
    by (rule example_fresh) simp_all
  obtain b' h' where r: "run (map AddPeerCall [Ptr 16, Ptr 17, nil, Ptr 3])
                      (example_bucket 16) (example_heap 16) = (b', h')"
    by (cases "run (map AddPeerCall [Ptr 16, Ptr 17, nil, Ptr 3])
                      (example_bucket 16) (example_heap 16)") auto
  have grows: "len (peers (fst (snd ?A))) \<noteq> len (peers (example_bucket 3))"
    by code_simp
  have A: "?A = (fst ?A, fst (snd ?A), snd (snd ?A))" by simp
  from AddPeer_capacity [of "example_bucket 16" "[Ptr 16, Ptr 17, nil, Ptr 3]" "example_heap 16"
      b' h' "Ptr 16"] l c r fresh example_well_formed [of 16] example_unlocked [of 16]
  have one: "CountPeers b' \<le> int maxBucketSize"
    and two: "AddPeer (Ptr 16) (example_bucket 16) (example_heap 16) =
     (Returns (Some BucketFull), example_bucket 16, example_heap 16)" by simp_all
  from AddPeer_capacity [of "example_bucket 3" "[]" "example_heap 3" "example_bucket 3"
      "example_heap 3" "Ptr 7" "fst ?A" "fst (snd ?A)" "snd (snd ?A)"] A grows
  have three: "fst ?A = Returns None" and four: "len (peers (example_bucket 3)) < maxBucketSize"
    by simp_all
  from one two three four grows l c r example_well_formed [of 16] example_unlocked [of 16]
  show ?thesis by simp
qed

text \<open>The full example bucket holds peer 0: adding it again fails with
  \<open>DuplicatePeer\<close>, not with \<open>BucketFull\<close>.\<close>

theorem AddPeer_full_counterexample:
  "well_formed (example_bucket 16) (example_heap 16) \<and>
   \<not> peersAccess (example_bucket 16) \<and>
   CountPeers (example_bucket 16) = int maxBucketSize \<and>
   AddPeer (Ptr 0) (example_bucket 16) (example_heap 16) =
     (Returns (Some DuplicatePeer), example_bucket 16, example_heap 16) \<and>
   fst (AddPeer (Ptr 0) (example_bucket 16) (example_heap 16)) \<noteq> Returns (Some BucketFull)"
proof -
  have c: "CountPeers (example_bucket 16) = int maxBucketSize"
    by (simp add: example_bucket_def maxBucketSize_def CountPeers_def)
  have dup: "Peer_Id (example_heap 16) (Ptr 0) \<in>
                 Peer_Id (example_heap 16) ` set (occupants (example_bucket 16) (example_heap 16))"
    by (rule example_member) simp
  from AddPeer_duplicate [OF example_well_formed example_unlocked dup] c
    example_well_formed [of 16] example_unlocked [of 16]
  show ?thesis by (simp add: DuplicatePeer_def BucketFull_def)
qed

section \<open>Peers per address\<close>

text \<open>Claim C3, as amended. For every sequence of \<^verbatim>\<open>AddPeer\<close> calls on a bucket without nil
  entries, no address is shared by more than \<open>maxPeersPerIP\<close> occupants; and a call whose
  peer's address is already held by \<open>maxPeersPerIP\<close> occupants fails and leaves the bucket
  and the store as they were: with \<open>DuplicatePeer\<close> when an occupant has the peer's
  identifier, else with \<open>BucketFull\<close> when the bucket is full, and with
  \<open>TooManyFromSameAddress\<close> otherwise. The claim as stated gives
  \<open>TooManyFromSameAddress\<close> for every such call; the duplicate scan and the capacity
  check come first in the source.\<close>

theorem AddPeer_per_address:
  "(well_formed b h \<and> \<not> peersAccess b \<and> per_address_bounded b h \<and>
    run (map AddPeerCall ps) b h = (b', h')
      \<longrightarrow> per_address_bounded b' h') \<and>
   (well_formed b h \<and> \<not> peersAccess b \<and> Peer_IP h p = Some x \<and>
    maxPeersPerIP \<le> length (on_address h x (occupants b h))
      \<longrightarrow> AddPeer p b h =
            (Returns (Some (if Peer_Id h p \<in> Peer_Id h ` set (occupants b h) then DuplicatePeer
                            else if maxBucketSize \<le> len (peers b) then BucketFull
                            else TooManyFromSameAddress)), b, h))"
proof (intro conjI impI)
  assume "well_formed b h \<and> \<not> peersAccess b \<and> per_address_bounded b h \<and>
    run (map AddPeerCall ps) b h = (b', h')"
  then show "per_address_bounded b' h'"
    using run_invariants(4) [of b h "map AddPeerCall ps" b' h'] by simp
next
  assume a: "well_formed b h \<and> \<not> peersAccess b \<and> Peer_IP h p = Some x \<and>
    maxPeersPerIP \<le> length (on_address h x (occupants b h))"
  then have w: "well_formed b h" and u: "\<not> peersAccess b" and ip: "Peer_IP h p = Some x"
    and many: "maxPeersPerIP \<le> length (on_address h x (occupants b h))"
    by simp_all
  from ip obtain c where p: "p = Ptr c" and x: "x = peer_ip (objs h c)"
    by (cases p) (auto simp: Peer_IP_def deref_def)
  show "AddPeer p b h =
            (Returns (Some (if Peer_Id h p \<in> Peer_Id h ` set (occupants b h) then DuplicatePeer
                            else if maxBucketSize \<le> len (peers b) then BucketFull
                            else TooManyFromSameAddress)), b, h)"
  proof (cases "Peer_Id h p \<in> Peer_Id h ` set (occupants b h)")
    case True
    with AddPeer_duplicate [OF w u, of c] p show ?thesis by simp
  next
    case fresh: False
    show ?thesis
    proof (cases "maxBucketSize \<le> len (peers b)")
      case True
      with AddPeer_full [OF w u _ True, of c] fresh p show ?thesis by simp
    next
      case False
      then have "len (peers b) < maxBucketSize" by simp
      with AddPeer_many [OF w u _ this, of c] fresh many p x False show ?thesis by simp
    qed
  qed
qed

text \<open>The theorem at the example bucket of thirteen, which holds the peers 0, 6 and 12
  of the address \<open>10.0.0.0\<close> and the peers 1 and 7 of \<open>10.0.0.1\<close>: of the peers 18, 13
  and 19 offered in a run only peer 13 is admitted, as the third of its address, and
  peer 18 alone is rejected with \<open>TooManyFromSameAddress\<close>.\<close>

theorem AddPeer_per_address_witness:
  "well_formed (example_bucket 13) (example_heap 13) \<and>
   \<not> peersAccess (example_bucket 13) \<and>
   per_address_bounded (example_bucket 13) (example_heap 13) \<and>
   occupants
     (fst (run (map AddPeerCall [Ptr 18, Ptr 13, Ptr 19]) (example_bucket 13) (example_heap 13)))
     (snd (run (map AddPeerCall [Ptr 18, Ptr 13, Ptr 19]) (example_bucket 13) (example_heap 13))) =
     [Ptr 0, Ptr 1, Ptr 2, Ptr 3, Ptr 4, Ptr 5, Ptr 6, Ptr 7, Ptr 8, Ptr 9, Ptr 10, Ptr 11,
      Ptr 12, Ptr 13] \<and>
   per_address_bounded
     (fst (run (map AddPeerCall [Ptr 18, Ptr 13, Ptr 19]) (example_bucket 13) (example_heap 13)))
     (snd (run (map AddPeerCall [Ptr 18, Ptr 13, Ptr 19]) (example_bucket 13) (example_heap 13))) \<and>
   Peer_IP (example_heap 13) (Ptr 18) = Some [10, 0, 0, 0] \<and>
   maxPeersPerIP \<le> length (on_address (example_heap 13) [10, 0, 0, 0]
                             (occupants (example_bucket 13) (example_heap 13))) \<and>
   AddPeer (Ptr 18) (example_bucket 13) (example_heap 13) =
     (Returns (Some TooManyFromSameAddress), example_bucket 13, example_heap 13)"
proof -
  let ?R = "run (map AddPeerCall [Ptr 18, Ptr 13, Ptr 19]) (example_bucket 13) (example_heap 13)"
  have pa: "per_address_bounded (example_bucket 13) (example_heap 13)"
    by code_simp
  have occ: "occupants (fst ?R) (snd ?R) =
     [Ptr 0, Ptr 1, Ptr 2, Ptr 3, Ptr 4, Ptr 5, Ptr 6, Ptr 7, Ptr 8, Ptr 9, Ptr 10, Ptr 11,
      Ptr 12, Ptr 13]"
    by code_simp
  have ip: "Peer_IP (example_heap 13) (Ptr 18) = Some [10, 0, 0, 0]"
    by (simp add: example_ip)
  have many: "maxPeersPerIP \<le> length (on_address (example_heap 13) [10, 0, 0, 0]
                             (occupants (example_bucket 13) (example_heap 13)))"
    by (simp add: example_on_address_0 maxPeersPerIP_def)
  have fresh: "Peer_Id (example_heap 13) (Ptr 18) \<notin>
                 Peer_Id (example_heap 13) ` set (occupants (example_bucket 13) (example_heap 13))"
    by (rule example_fresh) simp_all
  have room: "\<not> maxBucketSize \<le> len (peers (example_bucket 13))"
    by (simp add: example_bucket_def maxBucketSize_def)
  have R: "?R = (fst ?R, snd ?R)" by simp
  from AddPeer_per_address [of "example_bucket 13" "example_heap 13"
      "[Ptr 18, Ptr 13, Ptr 19]" "fst ?R" "snd ?R" "Ptr 18" "[10, 0, 0, 0]"]
    pa R ip many fresh room example_well_formed [of 13] example_unlocked [of 13]
  have one: "per_address_bounded (fst ?R) (snd ?R)"
    and two: "AddPeer (Ptr 18) (example_bucket 13) (example_heap 13) =
     (Returns (Some TooManyFromSameAddress), example_bucket 13, example_heap 13)" by simp_all
  from pa occ one ip many two example_well_formed [of 13] example_unlocked [of 13]
  show ?thesis by simp
qed

text \<open>The full example bucket holds the peers 0, 6 and 12 of the address \<open>10.0.0.0\<close>;
  peer 18 of that address, no occupant, is rejected with \<open>BucketFull\<close>.\<close>

theorem AddPeer_per_address_counterexample:
  "well_formed (example_bucket 16) (example_heap 16) \<and>
   \<not> peersAccess (example_bucket 16) \<and>
   Peer_IP (example_heap 16) (Ptr 18) = Some [10, 0, 0, 0] \<and>
   length (on_address (example_heap 16) [10, 0, 0, 0]
             (occupants (example_bucket 16) (example_heap 16))) = maxPeersPerIP \<and>
   AddPeer (Ptr 18) (example_bucket 16) (example_heap 16) =
     (Returns (Some BucketFull), example_bucket 16, example_heap 16) \<and>
   fst (AddPeer (Ptr 18) (example_bucket 16) (example_heap 16)) \<noteq>
     Returns (Some TooManyFromSameAddress)"
proof -
  have ip: "Peer_IP (example_heap 16) (Ptr 18) = Some [10, 0, 0, 0]"
    by (simp add: example_ip)
  have fresh: "Peer_Id (example_heap 16) (Ptr 18) \<notin>
                 Peer_Id (example_heap 16) ` set (occupants (example_bucket 16) (example_heap 16))"
    by (rule example_fresh) simp_all
  have full: "maxBucketSize \<le> len (peers (example_bucket 16))"
    by (simp add: example_bucket_def maxBucketSize_def)
  from AddPeer_full [OF example_well_formed example_unlocked fresh full] ip
    example_on_address_0(1) example_well_formed [of 16] example_unlocked [of 16]
  show ?thesis
    by (simp add: maxPeersPerIP_def BucketFull_def TooManyFromSameAddress_def)
qed

section \<open>Unique identifiers\<close>

text \<open>Claim C4. On a bucket without nil entries, the mutex free, \<^verbatim>\<open>AddPeer\<close> of a peer
  whose identifier equals the identifier of an occupant fails with \<open>DuplicatePeer\<close> and
  changes neither the bucket nor the store; and a bucket whose occupants have distinct
  identifiers keeps them distinct through every sequence of \<^verbatim>\<open>AddPeer\<close>,
  \<^verbatim>\<open>RemovePeer\<close> and \<^verbatim>\<open>SetPeerAlive\<close> calls.\<close>

theorem AddPeer_rejects_duplicate:
  "(well_formed b h \<and> \<not> peersAccess b \<and> p \<noteq> nil \<and>
    Peer_Id h p \<in> Peer_Id h ` set (occupants b h)
      \<longrightarrow> AddPeer p b h = (Returns (Some DuplicatePeer), b, h)) \<and>
   (well_formed b h \<and> \<not> peersAccess b \<and> unique_ids b h \<and> run cs b h = (b', h')
      \<longrightarrow> unique_ids b' h')"
proof (intro conjI impI)
  assume a: "well_formed b h \<and> \<not> peersAccess b \<and> p \<noteq> nil \<and>
    Peer_Id h p \<in> Peer_Id h ` set (occupants b h)"
  then obtain c where "p = Ptr c" by (cases p) auto
  with a AddPeer_duplicate [of b h c]
  show "AddPeer p b h = (Returns (Some DuplicatePeer), b, h)" by simp
next
  assume "well_formed b h \<and> \<not> peersAccess b \<and> unique_ids b h \<and> run cs b h = (b', h')"
  then show "unique_ids b' h'"
    using run_invariants(3) [of b h cs b' h'] by simp
qed

text \<open>The theorem at the example bucket of three, offered its peer 1 again, and at a
  run from the empty bucket that offers peer 0 twice.\<close>

theorem AddPeer_rejects_duplicate_witness:
  "well_formed (example_bucket 3) (example_heap 3) \<and>
   \<not> peersAccess (example_bucket 3) \<and>
   Peer_Id (example_heap 3) (Ptr 1) \<in>
     Peer_Id (example_heap 3) ` set (occupants (example_bucket 3) (example_heap 3)) \<and>
   AddPeer (Ptr 1) (example_bucket 3) (example_heap 3) =
     (Returns (Some DuplicatePeer), example_bucket 3, example_heap 3) \<and>
   well_formed (example_bucket 0) (example_heap 0) \<and>
   \<not> peersAccess (example_bucket 0) \<and>
   unique_ids (example_bucket 0) (example_heap 0) \<and>
   unique_ids
     (fst (run [AddPeerCall (Ptr 0), AddPeerCall (Ptr 1), AddPeerCall (Ptr 0),
                SetPeerAliveCall (\<lambda>p. 1) 0, RemovePeerCall (Ptr 1)]
             (example_bucket 0) (example_heap 0)))
     (snd (run [AddPeerCall (Ptr 0), AddPeerCall (Ptr 1), AddPeerCall (Ptr 0),
                SetPeerAliveCall (\<lambda>p. 1) 0, RemovePeerCall (Ptr 1)]
             (example_bucket 0) (example_heap 0)))"
proof -
  let ?cs = "[AddPeerCall (Ptr 0), AddPeerCall (Ptr 1), AddPeerCall (Ptr 0),
                SetPeerAliveCall (\<lambda>p. 1) 0, RemovePeerCall (Ptr 1)]"
  have dup: "Peer_Id (example_heap 3) (Ptr 1) \<in>
     Peer_Id (example_heap 3) ` set (occupants (example_bucket 3) (example_heap 3))"
    by (rule example_member) simp
  have u: "unique_ids (example_bucket 0) (example_heap 0)"
    by (simp add: unique_ids_def example_occupants)
  obtain b' h' where r: "run ?cs (example_bucket 0) (example_heap 0) = (b', h')"
    by (cases "run ?cs (example_bucket 0) (example_heap 0)") auto
  from AddPeer_rejects_duplicate [of "example_bucket 3" "example_heap 3" "Ptr 1" "[]"
      "example_bucket 3" "example_heap 3"] dup example_well_formed [of 3] example_unlocked [of 3]
  have one: "AddPeer (Ptr 1) (example_bucket 3) (example_heap 3) =
     (Returns (Some DuplicatePeer), example_bucket 3, example_heap 3)" by simp
  from AddPeer_rejects_duplicate [of "example_bucket 0" "example_heap 0" nil ?cs b' h']
    u r example_well_formed [of 0] example_unlocked [of 0]
  have two: "unique_ids b' h'" by simp
  from dup u one two r example_well_formed [of 0] example_unlocked [of 0]
    example_well_formed [of 3] example_unlocked [of 3]
  show ?thesis by simp
qed

section \<open>The closest peers\<close>

text \<open>Claim C5, as amended. For every bucket without nil entries, every target and every
  \<open>max \<ge> 0\<close>, \<^verbatim>\<open>GetClosestPeers\<close> returns (it does not fail), and what it returns is the
  first \<open>max\<close> entries of a ranking \<open>zs\<close> of exactly the occupants that are IP-verified and
  alive, in non-decreasing XOR distance to the target: so only such occupants are
  returned, in that order, and \<open>min max n\<close> of them when \<open>n\<close> occupants qualify, none when
  the bucket is empty or no occupant qualifies. A negative \<open>max\<close> is outside: the
  source then slices \<^verbatim>\<open>peerCpy[0:max]\<close>.\<close>

theorem GetClosestPeers_ranking:
  "well_formed b h \<and> 0 \<le> mx \<longrightarrow>
     (\<exists>s h' zs ds.
        GetClosestPeers to mx b h = (Returns s, h') \<and>
        mset zs = mset (filter (\<lambda>q. Peer_IsIpVerified h q = Some True \<and>
                                     Peer_IsAlive h q = Some True) (occupants b h)) \<and>
        map (Peer_distance h to) zs = map Some ds \<and> sorted ds \<and>
        slice_elems h' s = take (nat mx) zs \<and>
        length (slice_elems h' s) =
          min (nat mx) (length (filter (\<lambda>q. Peer_IsIpVerified h q = Some True \<and>
                                            Peer_IsAlive h q = Some True) (occupants b h))))"
proof
  let ?k = "\<lambda>q. case q of nil \<Rightarrow> 0 | Ptr a \<Rightarrow> Xor (peer_id (objs h a)) to"
  let ?ys = "filter (\<lambda>q. Peer_IsIpVerified h q = Some True \<and> Peer_IsAlive h q = Some True)
               (occupants b h)"
  assume a: "well_formed b h \<and> 0 \<le> mx"
  then have w: "well_formed b h" and mx: "0 \<le> mx" by simp_all
  have ok: "slice_ok h (peers b)" and nn: "nil \<notin> set (occupants b h)"
    using w by (simp_all add: well_formed_def)
  have ys: "filter (\<lambda>q. active h q = Some True) (occupants b h) = ?ys"
    by (simp add: active_True)
  have "\<exists>s h' zs. GetClosestPeers to mx b h = (Returns s, h') \<and> mset zs = mset ?ys \<and>
          sorted (map ?k zs) \<and> slice_elems h' s = take (nat mx) zs"
  proof (cases "len (peers b) = 0")
    case True
    then have "occupants b h = []"
      using slice_elems_length [OF ok] by simp
    with GetClosestPeers_empty [OF True, of to mx h] show ?thesis by auto
  next
    case False
    then have "0 < len (peers b)" by simp
    from GetClosestPeers_sorted [OF w mx this, of to] show ?thesis
      unfolding ys by blast
  qed
  then obtain s h' zs where G: "GetClosestPeers to mx b h = (Returns s, h')"
    and m: "mset zs = mset ?ys" and srt: "sorted (map ?k zs)"
    and el: "slice_elems h' s = take (nat mx) zs" by blast
  from m have "set zs = set ?ys" by (metis set_mset_mset)
  with nn have "nil \<notin> set zs" by auto
  then have d: "map (Peer_distance h to) zs = map Some (map ?k zs)"
    by (rule Peer_distance_key)
  from m have "length zs = length ?ys" by (metis size_mset)
  then have "length (slice_elems h' s) = min (nat mx) (length ?ys)"
    by (simp add: el min.commute)
  with G m d srt el
  show "\<exists>s h' zs ds.
        GetClosestPeers to mx b h = (Returns s, h') \<and> mset zs = mset ?ys \<and>
        map (Peer_distance h to) zs = map Some ds \<and> sorted ds \<and>
        slice_elems h' s = take (nat mx) zs \<and>
        length (slice_elems h' s) = min (nat mx) (length ?ys)"
    by blast
qed

text \<open>The theorem at the full example bucket, the target 5 and \<open>max = 3\<close>: ten occupants
  qualify, and the three closest are the peers 4, 6 and 1, at the distances 1, 3 and 4.\<close>

theorem GetClosestPeers_ranking_witness:
  "well_formed (example_bucket 16) (example_heap 16) \<and> (0::int) \<le> 3 \<and>
   (\<exists>s. fst (GetClosestPeers 5 3 (example_bucket 16) (example_heap 16)) = Returns s \<and>
        slice_elems (snd (GetClosestPeers 5 3 (example_bucket 16) (example_heap 16))) s =
          [Ptr 4, Ptr 6, Ptr 1])"
proof -
  let ?G = "GetClosestPeers 5 3 (example_bucket 16) (example_heap 16)"
  have ev: "(case fst ?G of Returns s \<Rightarrow> slice_elems (snd ?G) s | Panics m \<Rightarrow> [] | Blocks \<Rightarrow> []) =
              [Ptr 4, Ptr 6, Ptr 1]"
    by code_simp
  from GetClosestPeers_ranking [of "example_bucket 16" "example_heap 16" 3 5]
    example_well_formed [of 16]
  obtain s h' where "?G = (Returns s, h')" by auto
  with ev example_well_formed [of 16] show ?thesis by simp
qed

text \<open>With \<open>max = -1\<close> the call on the example bucket of three panics.\<close>

theorem GetClosestPeers_negative_max_counterexample:
  "well_formed (example_bucket 3) (example_heap 3) \<and>
   fst (GetClosestPeers 5 (- 1) (example_bucket 3) (example_heap 3)) = Panics slice_bounds"
proof -
  have "fst (GetClosestPeers 5 (- 1) (example_bucket 3) (example_heap 3)) = Panics slice_bounds"
    by code_simp
  with example_well_formed [of 3] show ?thesis by simp
qed

section \<open>Random selection\<close>

lemma residues_upto:
  assumes "i < n"
  shows "length (filter (\<lambda>k. k mod n = i) [0..<m]) = m div n + (if i < m mod n then 1 else 0)"
proof (induction m)
  case 0
  then show ?case by simp
next
  case (Suc m)
  show ?case
  proof (cases "Suc (m mod n) = n")
    case True
    then have "Suc m mod n = 0" and "Suc m div n = Suc (m div n)"
      by (simp_all add: mod_Suc div_Suc)
    with Suc True assms show ?thesis by auto
  next
    case False
    then have "Suc m mod n = Suc (m mod n)" and "Suc m div n = m div n"
      by (simp_all add: mod_Suc div_Suc)
    with Suc assms show ?thesis by auto
  qed
qed

lemma slice_index_nth:
  assumes "slice_ok h s" and "k < len s"
  shows "slice_index h s k = slice_elems h s ! k"
  using assms by (simp add: slice_index_def slice_elems_def slice_ok_def)

lemma GetRandomPeer_index:
  assumes "slice_ok h (peers b)" and "\<not> peersAccess b" and "0 < len (peers b)"
  shows "GetRandomPeer (Inr r) b h =
           (Returns (occupants b h ! (unat r mod len (peers b)), None), b)"
proof -
  have "unat r mod len (peers b) < len (peers b)" using assms(3) by simp
  from slice_index_nth [OF assms(1) this] assms(2,3) show ?thesis
    by (simp add: GetRandomPeer_def Lock_free Unlock_Lock)
qed

lemma byte_of_nat: "k < 256 \<Longrightarrow> unat (of_nat k :: 8 word) = k"
  by (simp add: unat_of_nat)

text \<open>Claim C6, as amended. \<^verbatim>\<open>GetRandomPeer\<close> passes on the failure of the entropy read,
  fails with \<open>EmptyBucket\<close> on an empty bucket, and on a bucket of \<open>n > 0\<close> occupants
  returns the occupant at the index (random byte) \<open>mod n\<close>. Occupant \<open>i\<close> is selected by
  \<open>256 div n\<close> of the 256 bytes, and by one more when \<open>i < 256 mod n\<close>: the selection is
  uniform exactly when \<open>n\<close> divides 256. The claim as stated has it uniform for every
  \<open>n\<close>.\<close>

theorem GetRandomPeer_selection:
  "GetRandomPeer (Inl err) b h = (Returns (nil, Some err), b) \<and>
   (\<not> peersAccess b \<and> len (peers b) = 0
      \<longrightarrow> GetRandomPeer (Inr r) b h = (Returns (nil, Some EmptyBucket), b)) \<and>
   (slice_ok h (peers b) \<and> \<not> peersAccess b \<and> 0 < len (peers b)
      \<longrightarrow> GetRandomPeer (Inr r) b h =
            (Returns (occupants b h ! (unat r mod len (peers b)), None), b)) \<and>
   (slice_ok h (peers b) \<and> \<not> peersAccess b \<and> distinct (occupants b h) \<and> i < len (peers b)
      \<longrightarrow> length (filter (\<lambda>k. fst (GetRandomPeer (Inr (of_nat k)) b h) =
                                   Returns (occupants b h ! i, None)) [0..<256]) =
            256 div len (peers b) + (if i < 256 mod len (peers b) then 1 else 0))"
proof (intro conjI impI)
  show "GetRandomPeer (Inl err) b h = (Returns (nil, Some err), b)"
    by (simp add: GetRandomPeer_def)
next
  assume "\<not> peersAccess b \<and> len (peers b) = 0"
  then show "GetRandomPeer (Inr r) b h = (Returns (nil, Some EmptyBucket), b)"
    by (simp add: GetRandomPeer_def Lock_free Unlock_Lock)
next
  assume "slice_ok h (peers b) \<and> \<not> peersAccess b \<and> 0 < len (peers b)"
  then show "GetRandomPeer (Inr r) b h =
            (Returns (occupants b h ! (unat r mod len (peers b)), None), b)"
    by (simp add: GetRandomPeer_index)
next
  let ?n = "len (peers b)"
  assume a: "slice_ok h (peers b) \<and> \<not> peersAccess b \<and> distinct (occupants b h) \<and> i < ?n"
  then have ok: "slice_ok h (peers b)" and u: "\<not> peersAccess b"
    and d: "distinct (occupants b h)" and i: "i < ?n" by simp_all
  from i have pos: "0 < ?n" by simp
  have n: "length (occupants b h) = ?n" by (rule slice_elems_length [OF ok])
  have "filter (\<lambda>k. fst (GetRandomPeer (Inr (of_nat k)) b h) =
                       Returns (occupants b h ! i, None)) [0..<256] =
        filter (\<lambda>k. k mod ?n = i) [0..<256]"
  proof (rule filter_cong [OF refl])
    fix k assume "k \<in> set [0..<256]"
    then have k: "unat (of_nat k :: 8 word) = k" by (simp add: byte_of_nat)
    have "k mod ?n < length (occupants b h)" using pos n by simp
    with d i n have "occupants b h ! (k mod ?n) = occupants b h ! i \<longleftrightarrow> k mod ?n = i"
      by (simp add: nth_eq_iff_index_eq)
    then show "(fst (GetRandomPeer (Inr (of_nat k)) b h) = Returns (occupants b h ! i, None)) =
               (k mod ?n = i)"
      by (simp add: GetRandomPeer_index [OF ok u pos] k)
  qed
  then show "length (filter (\<lambda>k. fst (GetRandomPeer (Inr (of_nat k)) b h) =
                                   Returns (occupants b h ! i, None)) [0..<256]) =
            256 div ?n + (if i < 256 mod ?n then 1 else 0)"
    using residues_upto [OF i, of 256] by simp
qed

text \<open>The theorem at the example bucket of three and its first occupant.\<close>

theorem GetRandomPeer_selection_witness:
  "slice_ok (example_heap 3) (peers (example_bucket 3)) \<and>
   \<not> peersAccess (example_bucket 3) \<and>
   distinct (occupants (example_bucket 3) (example_heap 3)) \<and>
   0 < len (peers (example_bucket 3)) \<and>
   GetRandomPeer (Inr 200) (example_bucket 3) (example_heap 3) =
     (Returns (Ptr 2, None), example_bucket 3) \<and>
   length (filter (\<lambda>k. fst (GetRandomPeer (Inr (of_nat k)) (example_bucket 3) (example_heap 3)) =
                          Returns (Ptr 0, None)) [0..<256]) = 86 \<and>
   \<not> peersAccess (example_bucket 0) \<and> len (peers (example_bucket 0)) = 0 \<and>
   GetRandomPeer (Inr 200) (example_bucket 0) (example_heap 0) =
     (Returns (nil, Some EmptyBucket), example_bucket 0)"
proof -
  have ok: "slice_ok (example_heap 3) (peers (example_bucket 3))"
    using example_well_formed [of 3] by (simp add: well_formed_def)
  have occ: "occupants (example_bucket 3) (example_heap 3) = [Ptr 0, Ptr 1, Ptr 2]"
    by (simp add: example_occupants upt_rec)
  have l: "len (peers (example_bucket 3)) = 3" "len (peers (example_bucket 0)) = 0"
    by (simp_all add: example_bucket_def)
  have m: "unat (200 :: 8 word) mod 3 = 2" by simp
  from GetRandomPeer_selection [of _ "example_bucket 3" "example_heap 3" 200 0]
    ok occ l m example_unlocked [of 3]
  have one: "GetRandomPeer (Inr 200) (example_bucket 3) (example_heap 3) =
     (Returns (Ptr 2, None), example_bucket 3)"
    and two: "length (filter (\<lambda>k. fst (GetRandomPeer (Inr (of_nat k)) (example_bucket 3) (example_heap 3)) =
                          Returns (Ptr 0, None)) [0..<256]) = 86"
    by simp_all
  from GetRandomPeer_selection [of _ "example_bucket 0" "example_heap 0" 200]
    l example_unlocked [of 0]
  have three: "GetRandomPeer (Inr 200) (example_bucket 0) (example_heap 0) =
     (Returns (nil, Some EmptyBucket), example_bucket 0)" by simp
  from one two three ok occ l example_unlocked [of 3] example_unlocked [of 0]
  show ?thesis by simp
qed

text \<open>With three occupants the first is selected by 86 of the 256 bytes and the other
  two by 85 each.\<close>

theorem GetRandomPeer_not_uniform_counterexample:
  "length (filter (\<lambda>n. fst (GetRandomPeer (Inr (of_nat n)) (example_bucket 3) (example_heap 3)) =
                          Returns (Ptr 0, None)) [0..<256]) = 86 \<and>
   length (filter (\<lambda>n. fst (GetRandomPeer (Inr (of_nat n)) (example_bucket 3) (example_heap 3)) =
                          Returns (Ptr 1, None)) [0..<256]) = 85 \<and>
   length (filter (\<lambda>n. fst (GetRandomPeer (Inr (of_nat n)) (example_bucket 3) (example_heap 3)) =
                          Returns (Ptr 2, None)) [0..<256]) = 85"
proof -
  have sel: "\<And>k. filter (\<lambda>n. fst (GetRandomPeer (Inr (of_nat n)) (example_bucket 3) (example_heap 3)) =
                          Returns (Ptr k, None)) [0..<256] = filter (\<lambda>n. n mod 3 = k) [0..<256]"
    by (rule filter_cong) (auto simp: GetRandomPeer_example unat_of_nat)
  show ?thesis
    using bytes_mod_3 by (simp add: sel)
qed

section \<open>Recency\<close>

text \<open>Claim C7. On a bucket without nil entries, the mutex free: \<^verbatim>\<open>SetPeerAlive\<close> fails
  with \<open>PeerNotFound\<close>, changing nothing, when no occupant has the identifier; otherwise
  it succeeds, and then the last occupant is the peer that \<^verbatim>\<open>GetPeer\<close> finds for the
  identifier, it has that identifier, and, when the identifiers of the occupants are
  distinct and there is more than one occupant, \<^verbatim>\<open>OldestPeer\<close> is another peer with
  another identifier.\<close>

theorem SetPeerAlive_moves_to_tail:
  "well_formed b h \<and> \<not> peersAccess b \<and> SetPeerAlive upd ident b h = (r, b', h')
     \<longrightarrow> (if Some ident \<in> Peer_Id h ` set (occupants b h)
          then r = Returns None \<and> occupants b' h' \<noteq> [] \<and>
               Peer_Id h' (last (occupants b' h')) = Some ident \<and>
               GetPeer ident b h = (Returns (last (occupants b' h'), None), b) \<and>
               (unique_ids b h \<and> 1 < length (occupants b h)
                  \<longrightarrow> OldestPeer b' h' \<noteq> last (occupants b' h') \<and>
                      Peer_Id h' (OldestPeer b' h') \<noteq> Some ident)
          else r = Returns (Some PeerNotFound) \<and> b' = b \<and> h' = h)"
proof
  let ?N = "\<lambda>q. Peer_Id h q \<noteq> Some ident"
  assume a: "well_formed b h \<and> \<not> peersAccess b \<and> SetPeerAlive upd ident b h = (r, b', h')"
  then have w: "well_formed b h" and u: "\<not> peersAccess b"
    and s: "SetPeerAlive upd ident b h = (r, b', h')" by simp_all
  show "if Some ident \<in> Peer_Id h ` set (occupants b h)
          then r = Returns None \<and> occupants b' h' \<noteq> [] \<and>
               Peer_Id h' (last (occupants b' h')) = Some ident \<and>
               GetPeer ident b h = (Returns (last (occupants b' h'), None), b) \<and>
               (unique_ids b h \<and> 1 < length (occupants b h)
                  \<longrightarrow> OldestPeer b' h' \<noteq> last (occupants b' h') \<and>
                      Peer_Id h' (OldestPeer b' h') \<noteq> Some ident)
          else r = Returns (Some PeerNotFound) \<and> b' = b \<and> h' = h"
  proof (cases "Some ident \<in> Peer_Id h ` set (occupants b h)")
    case False
    with SetPeerAlive_missing [OF w u False, of upd] s show ?thesis by simp
  next
    case True
    note f = SetPeerAlive_found [OF w u True s]
    from f(2) obtain a where fnd: "find (\<lambda>q. Peer_Id h q = Some ident) (occupants b h) = Some (Ptr a)"
      and el: "occupants b' h' =
             takeWhile ?N (occupants b h) @ tl (dropWhile ?N (occupants b h)) @ [Ptr a]"
      by blast
    note fm = find_first_match [OF fnd]
    define ys where "ys = takeWhile ?N (occupants b h)"
    define zs where "zs = tl (dropWhile ?N (occupants b h))"
    have "occupants b h = takeWhile ?N (occupants b h) @ dropWhile ?N (occupants b h)"
      by simp
    also have "dropWhile ?N (occupants b h) = Ptr a # zs"
      using fm(3) by (simp add: zs_def)
    finally have sp: "occupants b h = ys @ Ptr a # zs" by (simp add: ys_def)
    have el': "occupants b' h' = ys @ zs @ [Ptr a]"
      using el by (simp add: ys_def zs_def)
    have lst: "last (occupants b' h') = Ptr a" by (simp add: el')
    have ida: "Peer_Id h' (Ptr a) = Some ident" using fm(1) by (simp add: f(6))
    have get: "GetPeer ident b h = (Returns (Ptr a, None), b)"
      using fnd by (simp add: GetPeer_eq [OF w u])
    have old: "OldestPeer b' h' \<noteq> Ptr a \<and> Peer_Id h' (OldestPeer b' h') \<noteq> Some ident"
      if uq: "unique_ids b h" and two: "1 < length (occupants b h)"
    proof -
      from two sp have ne: "ys @ zs \<noteq> []" by auto
      have ok': "slice_ok h' (peers b')" using f(3) by (simp add: well_formed_def)
      have "0 < len (peers b')"
        using slice_elems_length [OF ok'] by (simp add: el')
      from OldestPeer_hd [OF ok' this] ne have o: "OldestPeer b' h' = hd (ys @ zs)"
        by (simp add: el' hd_append)
      from ne have mem: "hd (ys @ zs) \<in> set (ys @ zs)" by (rule hd_in_set)
      from uq sp have "Peer_Id h (Ptr a) \<notin> Peer_Id h ` set (ys @ zs)"
        by (auto simp: unique_ids_def)
      with mem have "Peer_Id h (hd (ys @ zs)) \<noteq> Peer_Id h (Ptr a)"
        by (metis image_eqI)
      with fm(1) have "Peer_Id h (hd (ys @ zs)) \<noteq> Some ident" by simp
      then show ?thesis using fm(1) by (auto simp: o f(6))
    qed
    from True f(1) el' lst ida get old show ?thesis by simp
  qed
qed

text \<open>The theorem at the example bucket of three and the identifier 0 of its oldest
  peer: the peer moves to the tail and peer 1 is the oldest.\<close>

theorem SetPeerAlive_moves_to_tail_witness:
  "well_formed (example_bucket 3) (example_heap 3) \<and>
   \<not> peersAccess (example_bucket 3) \<and>
   Some 0 \<in> Peer_Id (example_heap 3) ` set (occupants (example_bucket 3) (example_heap 3)) \<and>
   unique_ids (example_bucket 3) (example_heap 3) \<and>
   1 < length (occupants (example_bucket 3) (example_heap 3)) \<and>
   fst (SetPeerAlive (\<lambda>p. 1) 0 (example_bucket 3) (example_heap 3)) = Returns None \<and>
   occupants (fst (snd (SetPeerAlive (\<lambda>p. 1) 0 (example_bucket 3) (example_heap 3))))
             (snd (snd (SetPeerAlive (\<lambda>p. 1) 0 (example_bucket 3) (example_heap 3)))) =
     [Ptr 1, Ptr 2, Ptr 0] \<and>
   OldestPeer (fst (snd (SetPeerAlive (\<lambda>p. 1) 0 (example_bucket 3) (example_heap 3))))
              (snd (snd (SetPeerAlive (\<lambda>p. 1) 0 (example_bucket 3) (example_heap 3)))) \<noteq>
     last (occupants (fst (snd (SetPeerAlive (\<lambda>p. 1) 0 (example_bucket 3) (example_heap 3))))
             (snd (snd (SetPeerAlive (\<lambda>p. 1) 0 (example_bucket 3) (example_heap 3)))))"
proof -
  let ?S = "SetPeerAlive (\<lambda>p. 1) 0 (example_bucket 3) (example_heap 3)"
  have mem: "Some 0 \<in> Peer_Id (example_heap 3) ` set (occupants (example_bucket 3) (example_heap 3))"
    using example_member [of 0 3] by (simp add: example_ids)
  have uq: "unique_ids (example_bucket 3) (example_heap 3)"
    by code_simp
  have two: "1 < length (occupants (example_bucket 3) (example_heap 3))"
    by (simp add: example_occupants)
  have occ: "occupants (fst (snd ?S)) (snd (snd ?S)) = [Ptr 1, Ptr 2, Ptr 0]"
    by code_simp
  from SetPeerAlive_moves_to_tail [of "example_bucket 3" "example_heap 3" "\<lambda>p. 1" 0
      "fst ?S" "fst (snd ?S)" "snd (snd ?S)"]
    mem uq two occ example_well_formed [of 3] example_unlocked [of 3]
  show ?thesis by simp
qed

section \<open>Adding, removing and looking up\<close>

text \<open>Claim C8. On a bucket without nil entries, the mutex free: after a successful
  \<^verbatim>\<open>AddPeer\<close> of \<open>p\<close>, \<^verbatim>\<open>GetPeer\<close> of the identifier of \<open>p\<close> returns \<open>p\<close>; after a successful
  \<^verbatim>\<open>RemovePeer\<close> of \<open>p\<close> from a bucket with distinct identifiers, \<^verbatim>\<open>GetPeer\<close> of that
  identifier fails with \<open>PeerNotFound\<close>; and \<^verbatim>\<open>RemovePeer\<close> of a peer takes out the first
  occupant with the peer's identifier (the only one, when identifiers are distinct),
  keeping the others in their order, and fails with \<open>PeerNotFound\<close>, changing nothing,
  when there is none.\<close>

theorem AddPeer_RemovePeer_GetPeer:
  "(well_formed b h \<and> \<not> peersAccess b \<and> AddPeer p b h = (Returns None, b1, h1)
      \<longrightarrow> (\<exists>i. Peer_Id h1 p = Some i \<and> GetPeer i b1 h1 = (Returns (p, None), b1))) \<and>
   (well_formed b h \<and> \<not> peersAccess b \<and> unique_ids b h \<and> Peer_Id h p = Some i \<and>
    RemovePeer p b h = (Returns None, b1, h1)
      \<longrightarrow> GetPeer i b1 h1 = (Returns (nil, Some PeerNotFound), b1)) \<and>
   (well_formed b h \<and> \<not> peersAccess b \<and> p \<noteq> nil \<and> RemovePeer p b h = (r, b1, h1)
      \<longrightarrow> (if Peer_Id h p \<in> Peer_Id h ` set (occupants b h)
           then r = Returns None \<and>
                (\<exists>ys q zs. occupants b h = ys @ q # zs \<and> Peer_Id h q = Peer_Id h p \<and>
                   Peer_Id h p \<notin> Peer_Id h ` set ys \<and> occupants b1 h1 = ys @ zs)
           else r = Returns (Some PeerNotFound) \<and> b1 = b \<and> h1 = h))"
proof (intro conjI impI)
  assume a: "well_formed b h \<and> \<not> peersAccess b \<and> AddPeer p b h = (Returns None, b1, h1)"
  then have w: "well_formed b h" and u: "\<not> peersAccess b"
    and add: "AddPeer p b h = (Returns None, b1, h1)" by simp_all
  from w u add show "\<exists>i. Peer_Id h1 p = Some i \<and> GetPeer i b1 h1 = (Returns (p, None), b1)"
  proof (cases rule: AddPeer_cases)
    case (rejected e)
    then show ?thesis by simp
  next
    case (admitted a)
    have ids: "Peer_Id h1 = Peer_Id h" by (rule same_objs(1) [OF admitted(9)])
    let ?i = "peer_id (objs h a)"
    have i: "Peer_Id h1 p = Some ?i" by (simp add: ids admitted(1) Peer_Id_Ptr)
    have "find (\<lambda>q. Peer_Id h q = Some ?i) (occupants b h) = None"
      using admitted(3) by (auto simp: find_None_iff admitted(1) Peer_Id_Ptr image_iff)
    then have "find (\<lambda>q. Peer_Id h1 q = Some ?i) (occupants b1 h1) = Some p"
      by (simp add: ids admitted(6) find_snoc admitted(1) Peer_Id_Ptr)
    then have "GetPeer ?i b1 h1 = (Returns (p, None), b1)"
      by (simp add: GetPeer_eq [OF admitted(7,8)])
    with i show ?thesis by blast
  qed
next
  assume a: "well_formed b h \<and> \<not> peersAccess b \<and> unique_ids b h \<and> Peer_Id h p = Some i \<and>
    RemovePeer p b h = (Returns None, b1, h1)"
  then have w: "well_formed b h" and u: "\<not> peersAccess b" and uq: "unique_ids b h"
    and i: "Peer_Id h p = Some i" and rm: "RemovePeer p b h = (Returns None, b1, h1)"
    by simp_all
  from i obtain a where p: "p = Ptr a" by (cases p) (auto simp: Peer_Id_def deref_def)
  have mem: "Peer_Id h (Ptr a) \<in> Peer_Id h ` set (occupants b h)"
  proof (rule ccontr)
    assume "Peer_Id h (Ptr a) \<notin> Peer_Id h ` set (occupants b h)"
    from RemovePeer_missing [OF w u this] rm p show False by simp
  qed
  from rm p have rm': "RemovePeer (Ptr a) b h = (Returns None, b1, h1)" by simp
  note f = RemovePeer_found [OF w u mem rm']
  have ids: "Peer_Id h1 = Peer_Id h" by (rule same_objs(1) [OF f(5)])
  from w u mem rm' obtain ys q zs where sp: "occupants b h = ys @ q # zs"
    and q: "Peer_Id h q = Peer_Id h (Ptr a)" and el: "occupants b1 h1 = ys @ zs"
    by (rule RemovePeer_split)
  from uq sp have "Peer_Id h q \<notin> Peer_Id h ` set (ys @ zs)"
    by (auto simp: unique_ids_def)
  with q i p have "\<forall>x\<in>set (ys @ zs). Peer_Id h x \<noteq> Some i"
    by (metis image_eqI)
  then have "find (\<lambda>q. Peer_Id h1 q = Some i) (occupants b1 h1) = None"
    by (auto simp: find_None_iff ids el)
  then show "GetPeer i b1 h1 = (Returns (nil, Some PeerNotFound), b1)"
    by (simp add: GetPeer_eq [OF f(3,4)])
next
  assume a: "well_formed b h \<and> \<not> peersAccess b \<and> p \<noteq> nil \<and> RemovePeer p b h = (r, b1, h1)"
  then have w: "well_formed b h" and u: "\<not> peersAccess b"
    and rm: "RemovePeer p b h = (r, b1, h1)" by simp_all
  from a obtain a where p: "p = Ptr a" by (cases p) auto
  from rm p have rm': "RemovePeer (Ptr a) b h = (r, b1, h1)" by simp
  show "if Peer_Id h p \<in> Peer_Id h ` set (occupants b h)
           then r = Returns None \<and>
                (\<exists>ys q zs. occupants b h = ys @ q # zs \<and> Peer_Id h q = Peer_Id h p \<and>
                   Peer_Id h p \<notin> Peer_Id h ` set ys \<and> occupants b1 h1 = ys @ zs)
           else r = Returns (Some PeerNotFound) \<and> b1 = b \<and> h1 = h"
  proof (cases "Peer_Id h p \<in> Peer_Id h ` set (occupants b h)")
    case False
    with RemovePeer_missing [OF w u, of a] rm p show ?thesis by simp
  next
    case True
    then have mem: "Peer_Id h (Ptr a) \<in> Peer_Id h ` set (occupants b h)" by (simp add: p)
    from w u mem rm' obtain ys q zs where "occupants b h = ys @ q # zs"
      and "Peer_Id h q = Peer_Id h (Ptr a)" and "Peer_Id h (Ptr a) \<notin> Peer_Id h ` set ys"
      and "occupants b1 h1 = ys @ zs"
      by (rule RemovePeer_split)
    then have "\<exists>ys q zs. occupants b h = ys @ q # zs \<and> Peer_Id h q = Peer_Id h p \<and>
                   Peer_Id h p \<notin> Peer_Id h ` set ys \<and> occupants b1 h1 = ys @ zs"
      unfolding p by blast
    with True RemovePeer_found(1) [OF w u mem rm'] show ?thesis by simp
  qed
qed

text \<open>The theorem at the example bucket of three: peer 7 is added and found, peer 1 is
  removed and no longer found, and the peers 0 and 2 stay in their order.\<close>

theorem AddPeer_RemovePeer_GetPeer_witness:
  "well_formed (example_bucket 3) (example_heap 3) \<and>
   \<not> peersAccess (example_bucket 3) \<and>
   unique_ids (example_bucket 3) (example_heap 3) \<and>
   fst (AddPeer (Ptr 7) (example_bucket 3) (example_heap 3)) = Returns None \<and>
   fst (GetPeer 7 (fst (snd (AddPeer (Ptr 7) (example_bucket 3) (example_heap 3))))
                  (snd (snd (AddPeer (Ptr 7) (example_bucket 3) (example_heap 3))))) =
     Returns (Ptr 7, None) \<and>
   fst (RemovePeer (Ptr 1) (example_bucket 3) (example_heap 3)) = Returns None \<and>
   occupants (fst (snd (RemovePeer (Ptr 1) (example_bucket 3) (example_heap 3))))
             (snd (snd (RemovePeer (Ptr 1) (example_bucket 3) (example_heap 3)))) =
     [Ptr 0, Ptr 2] \<and>
   GetPeer 1 (fst (snd (RemovePeer (Ptr 1) (example_bucket 3) (example_heap 3))))
             (snd (snd (RemovePeer (Ptr 1) (example_bucket 3) (example_heap 3)))) =
     (Returns (nil, Some PeerNotFound),
      fst (snd (RemovePeer (Ptr 1) (example_bucket 3) (example_heap 3))))"
proof -
  let ?A = "AddPeer (Ptr 7) (example_bucket 3) (example_heap 3)"
  let ?R = "RemovePeer (Ptr 1) (example_bucket 3) (example_heap 3)"
  have uq: "unique_ids (example_bucket 3) (example_heap 3)"
    by code_simp
  have fa: "fst ?A = Returns None"
    by code_simp
  then have add: "?A = (Returns None, fst (snd ?A), snd (snd ?A))"
    by (metis prod.collapse)
  have fr: "fst ?R = Returns None"
    by code_simp
  then have rem: "?R = (Returns None, fst (snd ?R), snd (snd ?R))"
    by (metis prod.collapse)
  have id7: "Peer_Id (snd (snd ?A)) (Ptr 7) = Some 7"
    by code_simp
  have id1: "Peer_Id (example_heap 3) (Ptr 1) = Some 1"
    by (simp add: example_ids)
  have occ: "occupants (fst (snd ?R)) (snd (snd ?R)) = [Ptr 0, Ptr 2]"
    by code_simp
  from AddPeer_RemovePeer_GetPeer [of "example_bucket 3" "example_heap 3" "Ptr 7"
      "fst (snd ?A)" "snd (snd ?A)"]
    add id7 example_well_formed [of 3] example_unlocked [of 3]
  have one: "fst (GetPeer 7 (fst (snd ?A)) (snd (snd ?A))) = Returns (Ptr 7, None)"
    by auto
  from AddPeer_RemovePeer_GetPeer [of "example_bucket 3" "example_heap 3" "Ptr 1"
      "fst (snd ?R)" "snd (snd ?R)" 1 "fst ?R"]
    rem id1 uq example_well_formed [of 3] example_unlocked [of 3]
  have two: "GetPeer 1 (fst (snd ?R)) (snd (snd ?R)) =
     (Returns (nil, Some PeerNotFound), fst (snd ?R))"
    by simp
  from one two uq fa fr occ example_well_formed [of 3] example_unlocked [of 3]
  show ?thesis by simp
qed

section \<open>Snapshots\<close>

text \<open>Claim C9. \<^verbatim>\<open>Peers\<close> returns the occupants in their order, in an array of its own:
  no later sequence of \<^verbatim>\<open>AddPeer\<close>, \<^verbatim>\<open>RemovePeer\<close> (or \<^verbatim>\<open>SetPeerAlive\<close>) calls on the
  bucket changes what the returned slice holds, although \<^verbatim>\<open>RemovePeer\<close> and
  \<^verbatim>\<open>pushToEnd\<close> overwrite the bucket's own array in place.\<close>

theorem Peers_is_independent_snapshot:
  "slice_ok h (peers b) \<and> Peers b h = (snapshot, h1) \<and> run cs b h1 = (b', h')
     \<longrightarrow> slice_elems h1 snapshot = occupants b h \<and>
         slice_elems h' snapshot = occupants b h"
proof
  assume a: "slice_ok h (peers b) \<and> Peers b h = (snapshot, h1) \<and> run cs b h1 = (b', h')"
  then have ok: "slice_ok h (peers b)" and p: "Peers b h = (snapshot, h1)"
    and r: "run cs b h1 = (b', h')" by simp_all
  note s = Peers_snapshot [OF ok p]
  from run_frame [OF s(4,2,3) r] s(1)
  show "slice_elems h1 snapshot = occupants b h \<and> slice_elems h' snapshot = occupants b h"
    by simp
qed

text \<open>The theorem at the example bucket of three: after the snapshot, peer 0 is removed
  and peer 7 is added; the bucket's array is overwritten in place and then replaced,
  and the snapshot still holds the peers 0, 1 and 2.\<close>

theorem Peers_is_independent_snapshot_witness:
  "slice_ok (example_heap 3) (peers (example_bucket 3)) \<and>
   slice_elems
     (snd (run [RemovePeerCall (Ptr 0), AddPeerCall (Ptr 7), AddPeerCall (Ptr 8)] (example_bucket 3)
             (snd (Peers (example_bucket 3) (example_heap 3)))))
     (fst (Peers (example_bucket 3) (example_heap 3))) = [Ptr 0, Ptr 1, Ptr 2] \<and>
   occupants
     (fst (run [RemovePeerCall (Ptr 0), AddPeerCall (Ptr 7), AddPeerCall (Ptr 8)] (example_bucket 3)
             (snd (Peers (example_bucket 3) (example_heap 3)))))
     (snd (run [RemovePeerCall (Ptr 0), AddPeerCall (Ptr 7), AddPeerCall (Ptr 8)] (example_bucket 3)
             (snd (Peers (example_bucket 3) (example_heap 3))))) = [Ptr 1, Ptr 2, Ptr 7, Ptr 8]"
proof -
  let ?cs = "[RemovePeerCall (Ptr 0), AddPeerCall (Ptr 7), AddPeerCall (Ptr 8)]"
  let ?P = "Peers (example_bucket 3) (example_heap 3)"
  let ?R = "run ?cs (example_bucket 3) (snd ?P)"
  have ok: "slice_ok (example_heap 3) (peers (example_bucket 3))"
    using example_well_formed [of 3] by (simp add: well_formed_def)
  have occ: "occupants (example_bucket 3) (example_heap 3) = [Ptr 0, Ptr 1, Ptr 2]"
    by (simp add: example_occupants upt_rec)
  have after: "occupants (fst ?R) (snd ?R) = [Ptr 1, Ptr 2, Ptr 7, Ptr 8]"
    by code_simp
  from Peers_is_independent_snapshot [of "example_heap 3" "example_bucket 3" "fst ?P" "snd ?P"
      ?cs "fst ?R" "snd ?R"] ok occ after
  show ?thesis by simp
qed

section \<open>The mutex\<close>

text \<open>Claim C10: every operation on the collection takes the bucket's lock and releases
  it before returning on every path, error paths included. \<^verbatim>\<open>GetPeerByAddr\<close> locks
  before its type switch and the default case returns without unlocking: after a
  lookup by an address that is neither UDP nor TCP the mutex stays held, and every
  later call that locks blocks forever.\<close>

theorem GetPeerByAddr_leaves_mutex_held:
  "GetPeerByAddr OtherAddr \<lparr>peers = s, peersAccess = False\<rparr> h =
     (Returns (nil, Some UnsupportedAddressKind), \<lparr>peers = s, peersAccess = True\<rparr>) \<and>
   AddPeer (Ptr a) \<lparr>peers = s, peersAccess = True\<rparr> h =
     (Blocks, \<lparr>peers = s, peersAccess = True\<rparr>, h) \<and>
   RemovePeer p \<lparr>peers = s, peersAccess = True\<rparr> h =
     (Blocks, \<lparr>peers = s, peersAccess = True\<rparr>, h) \<and>
   GetPeer ident \<lparr>peers = s, peersAccess = True\<rparr> h =
     (Blocks, \<lparr>peers = s, peersAccess = True\<rparr>) \<and>
   GetPeerByAddr addr \<lparr>peers = s, peersAccess = True\<rparr> h =
     (Blocks, \<lparr>peers = s, peersAccess = True\<rparr>)"
  by (simp add: GetPeerByAddr_def AddPeer_def RemovePeer_def GetPeer_def Lock_def)

end
